theory Spec2Isabelle
  imports Main "HOL-Library.AList" "HOL-Library.Sublist"
begin

section \<open>Strings\<close>

text \<open>
  JavaScript strings are modelled as \<^typ>\<open>string\<close>: a \<^typ>\<open>char\<close> stands for one code
  unit below U+0100. The server is taken to run on Node's POSIX \<open>path\<close> module: \<open>/\<close> is
  the only separator and a backslash is an ordinary character of a file name.
\<close>

text \<open>\<open>String.prototype.split\<close> with a one-character separator: never the empty array.\<close>

fun js_split :: "char \<Rightarrow> string \<Rightarrow> string list" where
  "js_split sep [] = [[]]"
| "js_split sep (c # cs) =
     (if c = sep then [] # js_split sep cs
      else (case js_split sep cs of
              [] \<Rightarrow> [[c]]
            | w # ws \<Rightarrow> (c # w) # ws))"

text \<open>\<open>Array.prototype.join\<close>.\<close>

fun js_join :: "string \<Rightarrow> string list \<Rightarrow> string" where
  "js_join sep [] = []"
| "js_join sep [x] = x"
| "js_join sep (x # y # ys) = x @ sep @ js_join sep (y # ys)"

text \<open>The code units below U+0100 that \<open>String.prototype.trim\<close> strips:
  TAB, LF, VT, FF, CR, SP and NBSP.\<close>

definition js_whitespace :: "char \<Rightarrow> bool" where
  "js_whitespace c \<longleftrightarrow>
     c \<in> set [CHR 0x09, CHR 0x0A, CHR 0x0B, CHR 0x0C, CHR 0x0D, CHR 0x20, CHR 0xA0]"

definition trim :: "string \<Rightarrow> string" where
  "trim s = rev (dropWhile js_whitespace (rev (dropWhile js_whitespace s)))"

text \<open>\<open>s.replace(/\\/g, '/')\<close>.\<close>

definition replace_backslashes :: "string \<Rightarrow> string" where
  "replace_backslashes s = map (\<lambda>c. if c = CHR 0x5C then CHR ''/'' else c) s"

text \<open>\<open>name.endsWith(ext)\<close>.\<close>

definition endsWith :: "string \<Rightarrow> string \<Rightarrow> bool" where
  "endsWith name ext \<longleftrightarrow>
     length ext \<le> length name \<and> drop (length name - length ext) name = ext"

section \<open>Node's \<open>path\<close> module (POSIX)\<close>

text \<open>\<open>normalizeString\<close> of Node's \<open>lib/path.js\<close>, on the pieces between separators:
  empty pieces and \<open>.\<close> are dropped, \<open>..\<close> removes the piece before it, and above the root
  \<open>..\<close> is kept only when \<open>allowAboveRoot\<close>.\<close>

fun normalizeString :: "bool \<Rightarrow> string list \<Rightarrow> string list \<Rightarrow> string list" where
  "normalizeString allowAboveRoot res [] = res"
| "normalizeString allowAboveRoot res (s # ss) =
     (if s = [] \<or> s = ''.'' then normalizeString allowAboveRoot res ss
      else if s = ''..'' then
        (if res \<noteq> [] \<and> last res \<noteq> ''..'' then normalizeString allowAboveRoot (butlast res) ss
         else if allowAboveRoot then normalizeString allowAboveRoot (res @ [''..'']) ss
         else normalizeString allowAboveRoot res ss)
      else normalizeString allowAboveRoot (res @ [s]) ss)"

definition path_normalize :: "string \<Rightarrow> string" where
  "path_normalize p =
     (if p = [] then ''.''
      else
        let isAbsolute = (hd p = CHR ''/'');
            trailingSeparator = (last p = CHR ''/'');
            path = js_join ''/'' (normalizeString (\<not> isAbsolute) [] (js_split (CHR ''/'') p))
        in if path = [] then
             (if isAbsolute then ''/'' else if trailingSeparator then ''./'' else ''.'')
           else (if isAbsolute then ''/'' else []) @ path
                  @ (if trailingSeparator then ''/'' else []))"

text \<open>\<open>path.join(a, b)\<close>.\<close>

definition path_join :: "string \<Rightarrow> string \<Rightarrow> string" where
  "path_join a b =
     (let joined = (if a = [] then b else if b = [] then a else a @ ''/'' @ b)
      in if joined = [] then ''.'' else path_normalize joined)"

text \<open>\<open>path.dirname(p)\<close>: the scan from the end skips the trailing separators and stops
  at the next separator of index at least 1.\<close>

definition path_dirname :: "string \<Rightarrow> string" where
  "path_dirname p =
     (if p = [] then ''.''
      else
        let hasRoot = (hd p = CHR ''/'');
            r = dropWhile (\<lambda>c. c \<noteq> CHR ''/'')
                  (dropWhile (\<lambda>c. c = CHR ''/'') (rev (tl p)))
        in if r = [] then (if hasRoot then ''/'' else ''.'')
           else if hasRoot \<and> length r = 1 then ''//''
           else take (length r) p)"

text \<open>\<open>path.basename(p)\<close>.\<close>

definition path_basename :: "string \<Rightarrow> string" where
  "path_basename p =
     rev (takeWhile (\<lambda>c. c \<noteq> CHR ''/'') (dropWhile (\<lambda>c. c = CHR ''/'') (rev p)))"

fun drop_common :: "string list \<Rightarrow> string list \<Rightarrow> string list \<times> string list" where
  "drop_common (x # xs) (y # ys) = (if x = y then drop_common xs ys else (x # xs, y # ys))"
| "drop_common xs ys = (xs, ys)"

text \<open>\<open>path.relative(from, to)\<close> for absolute arguments (every call of the source passes
  absolute paths, so the working directory is not consulted): both are resolved, the
  common leading pieces are dropped, and every piece left of \<open>from\<close> becomes \<open>..\<close>.\<close>

definition path_relative :: "string \<Rightarrow> string \<Rightarrow> string" where
  "path_relative from to =
     (let (f, t) = drop_common (normalizeString False [] (js_split (CHR ''/'') from))
                               (normalizeString False [] (js_split (CHR ''/'') to))
      in js_join ''/'' (replicate (length f) ''..'' @ t))"

section \<open>Directory trees and Node's \<open>fs\<close> calls\<close>

text \<open>A directory lists its entries by name, in the order \<open>readdir\<close> reports them. The
  same trees stand for the server's disk and for the folder the browser holds a handle on.\<close>

datatype node = File string | Dir "(string \<times> node) list"

datatype errno = ENOENT | ENOTDIR | EISDIR | EEXIST

text \<open>A proper name of an entry: what \<open>readdir\<close> can report and what the browser's File
  System Access API accepts.\<close>

definition valid_name :: "string \<Rightarrow> bool" where
  "valid_name n \<longleftrightarrow> n \<noteq> [] \<and> n \<noteq> ''.'' \<and> n \<noteq> ''..'' \<and> CHR ''/'' \<notin> set n"

fun lookup :: "node \<Rightarrow> string list \<Rightarrow> node option" where
  "lookup n [] = Some n"
| "lookup (File c) (s # ss) = None"
| "lookup (Dir es) (s # ss) =
     (case map_of es s of None \<Rightarrow> None | Some n \<Rightarrow> lookup n ss)"

text \<open>\<open>fs.rm(p, { recursive: true, force: true })\<close>: a missing path is no error.\<close>

fun rm :: "string list \<Rightarrow> node \<Rightarrow> errno + node" where
  "rm [] n = Inr n"
| "rm (s # ss) (File c) = Inl ENOTDIR"
| "rm [s] (Dir es) = Inr (Dir (AList.delete s es))"
| "rm (s # ss) (Dir es) =
     (case map_of es s of
        None \<Rightarrow> Inr (Dir es)
      | Some n \<Rightarrow>
          (case rm ss n of
             Inl e \<Rightarrow> Inl e
           | Inr n' \<Rightarrow> Inr (Dir (AList.update s n' es))))"

text \<open>\<open>fs.mkdir(p, { recursive: true })\<close>.\<close>

fun mkdirp :: "string list \<Rightarrow> node \<Rightarrow> errno + node" where
  "mkdirp [] (Dir es) = Inr (Dir es)"
| "mkdirp [] (File c) = Inl EEXIST"
| "mkdirp (s # ss) (File c) = Inl ENOTDIR"
| "mkdirp (s # ss) (Dir es) =
     (case mkdirp ss (case map_of es s of None \<Rightarrow> Dir [] | Some n \<Rightarrow> n) of
        Inl e \<Rightarrow> Inl e
      | Inr n' \<Rightarrow> Inr (Dir (AList.update s n' es)))"

text \<open>\<open>fs.writeFile(p, data)\<close>: the parent must be a directory, the target must not be
  one; an existing file is replaced.\<close>

fun writeFile :: "string list \<Rightarrow> string \<Rightarrow> node \<Rightarrow> errno + node" where
  "writeFile [] data n = Inl EISDIR"
| "writeFile (s # ss) data (File c) = Inl ENOTDIR"
| "writeFile [s] data (Dir es) =
     (case map_of es s of
        Some (Dir sub) \<Rightarrow> Inl EISDIR
      | _ \<Rightarrow> Inr (Dir (AList.update s (File data) es)))"
| "writeFile (s # ss) data (Dir es) =
     (case map_of es s of
        None \<Rightarrow> Inl ENOENT
      | Some n \<Rightarrow>
          (case writeFile ss data n of
             Inl e \<Rightarrow> Inl e
           | Inr n' \<Rightarrow> Inr (Dir (AList.update s n' es))))"

text \<open>The pieces of an absolute path string, as the system resolves it (the trees have no
  symbolic links, so \<open>..\<close> is resolved on the string).\<close>

definition fs_segments :: "string \<Rightarrow> string list" where
  "fs_segments p = normalizeString False [] (js_split (CHR ''/'') p)"

definition fs_rm :: "string \<Rightarrow> node \<Rightarrow> errno + node" where
  "fs_rm p fs = rm (fs_segments p) fs"

definition fs_mkdir :: "string \<Rightarrow> node \<Rightarrow> errno + node" where
  "fs_mkdir p fs = mkdirp (fs_segments p) fs"

text \<open>\<open>fs.writeFile\<close> opens its target for writing and creation; a path string that ends in
  a slash is refused then with \<open>EISDIR\<close>, whatever is found at the path. Path strings are
  taken as they come: the \<open>fs\<close> calls of Node refuse a string that holds U+0000 before they
  reach the disk, which is left out here.\<close>

definition fs_writeFile :: "string \<Rightarrow> string \<Rightarrow> node \<Rightarrow> errno + node" where
  "fs_writeFile p data fs =
     (if p \<noteq> [] \<and> last p = CHR ''/'' then Inl EISDIR
      else writeFile (fs_segments p) data fs)"

definition fs_readFile :: "string \<Rightarrow> node \<Rightarrow> errno + string" where
  "fs_readFile p fs =
     (case lookup fs (fs_segments p) of
        None \<Rightarrow> Inl ENOENT
      | Some (Dir es) \<Rightarrow> Inl EISDIR
      | Some (File c) \<Rightarrow> if p \<noteq> [] \<and> last p = CHR ''/'' then Inl ENOTDIR else Inr c)"

section \<open>Requests and the streamed response\<close>

record file_record =
  filePath :: string
  content :: string

text \<open>A modified-file object \<open>{ filePath, modifiedContent }\<close>; its \<open>filePath\<close> field is
  named \<open>mfPath\<close> here, apart from the field of \<^typ>\<open>file_record\<close>.\<close>

record modified_file =
  mfPath :: string
  modifiedContent :: string

text \<open>The body of a request to \<open>/api/code-agent\<close>. Which of the two command lines is
  spawned (\<open>useClaude\<close>) only selects the external process, which is a parameter below.\<close>

record request =
  prompt :: string
  files :: "file_record list"

text \<open>What the handler puts on the wire: one NDJSON record per \<open>res.write\<close>, or the
  JSON body of an error response.\<close>

datatype payload =
    Stdout string
  | ModifiedFiles "modified_file list"
  | ExitError "int option"
  | SpawnError
  | BadRequest
  | RequestFailed

record response =
  statusCode :: nat
  headersSent :: bool
  body :: "payload list"
  writableEnded :: bool

definition new_response :: response where
  "new_response = \<lparr>statusCode = 200, headersSent = False, body = [], writableEnded = False\<rparr>"

text \<open>\<open>res.write(x)\<close>: the first write sends the headers with the status set so far.\<close>

definition res_write :: "payload \<Rightarrow> response \<Rightarrow> response" where
  "res_write x res =
     (if writableEnded res then res
      else res\<lparr>headersSent := True, body := body res @ [x]\<rparr>)"

text \<open>\<open>res.end()\<close>.\<close>

definition res_end :: "response \<Rightarrow> response" where
  "res_end res = res\<lparr>headersSent := True, writableEnded := True\<rparr>"

text \<open>\<open>res.status(code).json(x)\<close>, called only while the headers are unsent.\<close>

definition res_status_json :: "nat \<Rightarrow> payload \<Rightarrow> response \<Rightarrow> response" where
  "res_status_json code x res =
     res\<lparr>statusCode := code, headersSent := True, body := body res @ [x],
         writableEnded := True\<rparr>"

section \<open>Workspace preparation (\<open>/api/code-agent\<close>, the \<open>for (const file of files)\<close> loop)\<close>

text \<open>A call that throws leaves the loop; what was written before stays on the disk, so
  the state is returned beside the error.\<close>

fun populate ::
  "string \<Rightarrow> file_record list \<Rightarrow> (string \<rightharpoonup> string) \<times> node
     \<Rightarrow> errno option \<times> (string \<rightharpoonup> string) \<times> node" where
  "populate userFilesDir [] (originalFileContents, fs) = (None, originalFileContents, fs)"
| "populate userFilesDir (file # rest) (originalFileContents, fs) =
     (let normalizedFilePath = replace_backslashes (filePath file);
          originalFileContents' = originalFileContents(normalizedFilePath \<mapsto> content file);
          filePath' = path_join userFilesDir (filePath file);
          dirName = path_dirname filePath'
      in case fs_mkdir dirName fs of
           Inl e \<Rightarrow> (Some e, originalFileContents', fs)
         | Inr fs1 \<Rightarrow>
             (case fs_writeFile filePath' (content file) fs1 of
                Inl e \<Rightarrow> (Some e, originalFileContents', fs1)
              | Inr fs2 \<Rightarrow> populate userFilesDir rest (originalFileContents', fs2)))"

definition prepare ::
  "string \<Rightarrow> file_record list \<Rightarrow> node \<Rightarrow> errno option \<times> (string \<rightharpoonup> string) \<times> node" where
  "prepare dirname fileList fs =
     (let userFilesDir = path_join dirname ''USER_FILES''
      in case fs_rm userFilesDir fs of
           Inl e \<Rightarrow> (Some e, Map.empty, fs)
         | Inr fs1 \<Rightarrow>
             (case fs_mkdir userFilesDir fs1 of
                Inl e \<Rightarrow> (Some e, Map.empty, fs1)
              | Inr fs2 \<Rightarrow> populate userFilesDir fileList (Map.empty, fs2)))"

section \<open>Forwarding standard output (\<open>child.stdout.on('data')\<close>)\<close>

text \<open>\<open>for (const line of lines) res.write(JSON.stringify({ stdout: line }) + '\n')\<close>.\<close>

fun write_lines :: "string list \<Rightarrow> response \<Rightarrow> response" where
  "write_lines [] res = res"
| "write_lines (line # lines) res = write_lines lines (res_write (Stdout line) res)"

definition on_stdout_data :: "string \<Rightarrow> response \<Rightarrow> response" where
  "on_stdout_data chunk res =
     (let str = chunk;
          lines = filter (\<lambda>line. trim line \<noteq> []) (js_split (CHR 0x0A) str)
      in write_lines lines res)"

text \<open>The \<open>data\<close> events of one run, in arrival order.\<close>

fun stdout_events :: "string list \<Rightarrow> response \<Rightarrow> response" where
  "stdout_events [] res = res"
| "stdout_events (chunk # chunks) res = stdout_events chunks (on_stdout_data chunk res)"

text \<open>The newline-terminated lines of a whole output: every piece but the unterminated
  rest after the last newline.\<close>

definition stdout_lines :: "string \<Rightarrow> string list" where
  "stdout_lines out = butlast (js_split (CHR 0x0A) out)"

section \<open>The change detector (\<open>child.on('close')\<close>)\<close>

text \<open>\<open>getAllFiles(dirPath, fileList)\<close>: \<open>readdir\<close> of \<open>dirPath\<close> yields the entries of the
  directory found there, and \<open>readdir\<close> of \<open>path.join(dirPath, entry.name)\<close> those of the
  entry.\<close>

fun getAllFiles :: "string \<Rightarrow> node \<Rightarrow> string list \<Rightarrow> string list"
and getAllFiles_loop :: "string \<Rightarrow> (string \<times> node) list \<Rightarrow> string list \<Rightarrow> string list"
where
  "getAllFiles dirPath (Dir entries) fileList = getAllFiles_loop dirPath entries fileList"
| "getAllFiles dirPath (File c) fileList = fileList"
| "getAllFiles_loop dirPath [] fileList = fileList"
| "getAllFiles_loop dirPath ((name, entry) # entries) fileList =
     (let fullPath = path_join dirPath name
      in case entry of
           Dir sub \<Rightarrow> getAllFiles_loop dirPath entries (getAllFiles fullPath entry fileList)
         | File c \<Rightarrow> getAllFiles_loop dirPath entries (fileList @ [fullPath]))"

text \<open>The loop \<open>for (const filePath of allFilePaths)\<close> of \<open>/api/code-agent\<close>. A missing
  snapshot entry is \<open>undefined\<close>, which differs from every string.\<close>

fun diff_loop ::
  "string \<Rightarrow> (string \<rightharpoonup> string) \<Rightarrow> node \<Rightarrow> string list \<Rightarrow> modified_file list
     \<Rightarrow> errno + modified_file list" where
  "diff_loop userFilesDir originalFileContents fs [] modifiedFiles = Inr modifiedFiles"
| "diff_loop userFilesDir originalFileContents fs (filePath' # rest) modifiedFiles =
     (let relativePath = replace_backslashes (path_relative userFilesDir filePath');
          originalContent = originalFileContents relativePath
      in case fs_readFile filePath' fs of
           Inl e \<Rightarrow> Inl e
         | Inr newContent \<Rightarrow>
             diff_loop userFilesDir originalFileContents fs rest
               (if originalContent \<noteq> Some newContent
                then modifiedFiles @ [\<lparr>mfPath = relativePath, modifiedContent = newContent\<rparr>]
                else modifiedFiles))"

definition detect_changes ::
  "string \<Rightarrow> (string \<rightharpoonup> string) \<Rightarrow> node \<Rightarrow> errno + modified_file list" where
  "detect_changes userFilesDir originalFileContents fs =
     (case lookup fs (fs_segments userFilesDir) of
        None \<Rightarrow> Inl ENOENT
      | Some (File c) \<Rightarrow> Inl ENOTDIR
      | Some (Dir entries) \<Rightarrow>
          diff_loop userFilesDir originalFileContents fs
            (getAllFiles userFilesDir (Dir entries) []) [])"

text \<open>The same loop in \<open>/api/cli-inject\<close>, with its \<open>continue\<close> for \<open>GEMINI.md\<close>.\<close>

fun cli_inject_diff_loop ::
  "string \<Rightarrow> (string \<rightharpoonup> string) \<Rightarrow> node \<Rightarrow> string list \<Rightarrow> modified_file list
     \<Rightarrow> errno + modified_file list" where
  "cli_inject_diff_loop userFilesDir originalFileContents fs [] modifiedFiles = Inr modifiedFiles"
| "cli_inject_diff_loop userFilesDir originalFileContents fs (filePath' # rest) modifiedFiles =
     (let relativePath = replace_backslashes (path_relative userFilesDir filePath')
      in if path_basename relativePath = ''GEMINI.md''
         then cli_inject_diff_loop userFilesDir originalFileContents fs rest modifiedFiles
         else
           (let originalContent = originalFileContents relativePath
            in case fs_readFile filePath' fs of
                 Inl e \<Rightarrow> Inl e
               | Inr newContent \<Rightarrow>
                   cli_inject_diff_loop userFilesDir originalFileContents fs rest
                     (if originalContent \<noteq> Some newContent
                      then modifiedFiles
                             @ [\<lparr>mfPath = relativePath, modifiedContent = newContent\<rparr>]
                      else modifiedFiles)))"

definition cli_inject_detect_changes ::
  "string \<Rightarrow> (string \<rightharpoonup> string) \<Rightarrow> node \<Rightarrow> errno + modified_file list" where
  "cli_inject_detect_changes userFilesDir originalFileContents fs =
     (case lookup fs (fs_segments userFilesDir) of
        None \<Rightarrow> Inl ENOENT
      | Some (File c) \<Rightarrow> Inl ENOTDIR
      | Some (Dir entries) \<Rightarrow>
          cli_inject_diff_loop userFilesDir originalFileContents fs
            (getAllFiles userFilesDir (Dir entries) []) [])"

section \<open>The handler of \<open>/api/code-agent\<close>\<close>

text \<open>What the spawned process does reaches the handler as events; \<open>Close\<close> carries the
  exit code, \<open>None\<close> when a signal ended the process.\<close>

datatype child_event = StdoutData string | StderrData string | SpawnFailed | Close "int option"

text \<open>\<open>child.on('close', async code => ...)\<close>. When the walk or a read throws, the promise
  of the callback is rejected and nothing more is written: the response is returned as it
  stands, neither written to nor ended. No handler catches that rejection; what the
  runtime does with the server process after it is not part of this function.\<close>

definition on_close ::
  "string \<Rightarrow> (string \<rightharpoonup> string) \<Rightarrow> node \<Rightarrow> int option \<Rightarrow> response \<Rightarrow> response" where
  "on_close userFilesDir originalFileContents fs code res =
     (if code \<noteq> Some 0 then
        res_end (if \<not> headersSent res then res_status_json 500 (ExitError code) res else res)
      else
        (case detect_changes userFilesDir originalFileContents fs of
           Inl e \<Rightarrow> res
         | Inr modifiedFiles \<Rightarrow> res_end (res_write (ModifiedFiles modifiedFiles) res)))"

text \<open>\<open>child.on('error', ...)\<close>.\<close>

definition on_error :: "response \<Rightarrow> response" where
  "on_error res = (if \<not> headersSent res then res_status_json 500 SpawnError res else res)"

fun on_event ::
  "string \<Rightarrow> (string \<rightharpoonup> string) \<Rightarrow> node \<Rightarrow> child_event \<Rightarrow> response \<Rightarrow> response" where
  "on_event userFilesDir originalFileContents fs (StdoutData chunk) res = on_stdout_data chunk res"
| "on_event userFilesDir originalFileContents fs (StderrData chunk) res = res"
| "on_event userFilesDir originalFileContents fs SpawnFailed res = on_error res"
| "on_event userFilesDir originalFileContents fs (Close code) res =
     on_close userFilesDir originalFileContents fs code res"

fun on_events ::
  "string \<Rightarrow> (string \<rightharpoonup> string) \<Rightarrow> node \<Rightarrow> child_event list \<Rightarrow> response \<Rightarrow> response" where
  "on_events userFilesDir originalFileContents fs [] res = res"
| "on_events userFilesDir originalFileContents fs (ev # evs) res =
     on_events userFilesDir originalFileContents fs evs
       (on_event userFilesDir originalFileContents fs ev res)"

text \<open>The handler. \<open>dirname\<close> is \<open>__dirname\<close>, \<open>fs\<close> the server's disk, and \<open>agent\<close> the
  spawned process: from the disk it finds, the events it raises and the disk it leaves.\<close>

definition code_agent ::
  "string \<Rightarrow> node \<Rightarrow> (node \<Rightarrow> child_event list \<times> node) \<Rightarrow> request \<Rightarrow> response" where
  "code_agent dirname fs agent req =
     (if prompt req = [] \<or> files req = [] then res_status_json 400 BadRequest new_response
      else
        let userFilesDir = path_join dirname ''USER_FILES''
        in case prepare dirname (files req) fs of
             (Some e, originalFileContents, fs') \<Rightarrow> res_status_json 500 RequestFailed new_response
           | (None, originalFileContents, fs') \<Rightarrow>
               (let (events, fs'') = agent fs'
                in on_events userFilesDir originalFileContents fs'' events new_response))"

text \<open>The same handler together with the disk it leaves: the disk as found when the request
  is refused, the disk as the preparation left it when that stopped at an error, and
  otherwise the disk the agent leaves; the walk and the reads of the diff change
  nothing.\<close>

definition code_agent_run ::
  "string \<Rightarrow> node \<Rightarrow> (node \<Rightarrow> child_event list \<times> node) \<Rightarrow> request \<Rightarrow> response \<times> node" where
  "code_agent_run dirname fs agent req =
     (if prompt req = [] \<or> files req = []
      then (res_status_json 400 BadRequest new_response, fs)
      else
        let userFilesDir = path_join dirname ''USER_FILES''
        in case prepare dirname (files req) fs of
             (Some e, originalFileContents, fs') \<Rightarrow>
               (res_status_json 500 RequestFailed new_response, fs')
           | (None, originalFileContents, fs') \<Rightarrow>
               (let (events, fs'') = agent fs'
                in (on_events userFilesDir originalFileContents fs'' events new_response, fs'')))"
section \<open>The browser side (\<open>App.js\<close>)\<close>

text \<open>The folder the caller selected is the true store: \<open>directoryHandle\<close> holds its
  entries. The File System Access API refuses a name that is not a proper one with a
  \<open>TypeError\<close> and an entry of the other kind with a \<open>TypeMismatchError\<close>.\<close>

datatype dom_error = TypeError | TypeMismatchError

text \<open>The body of \<open>writeFileToDirectoryHandle\<close> on the path parts: one
  \<open>getDirectoryHandle(part, { create: true })\<close> per leading part, then
  \<open>getFileHandle(fileName, { create: true })\<close> and the write. A directory that was created
  before a later call throws stays.\<close>

fun write_parts ::
  "string list \<Rightarrow> string \<Rightarrow> (string \<times> node) list
     \<Rightarrow> dom_error option \<times> (string \<times> node) list" where
  "write_parts [] data es = (Some TypeError, es)"
| "write_parts [fileName] data es =
     (if \<not> valid_name fileName then (Some TypeError, es)
      else case map_of es fileName of
             Some (Dir sub) \<Rightarrow> (Some TypeMismatchError, es)
           | _ \<Rightarrow> (None, AList.update fileName (File data) es))"
| "write_parts (part # parts) data es =
     (if \<not> valid_name part then (Some TypeError, es)
      else case map_of es part of
             Some (File c) \<Rightarrow> (Some TypeMismatchError, es)
           | Some (Dir sub) \<Rightarrow>
               (case write_parts parts data sub of
                  (err, sub') \<Rightarrow> (err, AList.update part (Dir sub') es))
           | None \<Rightarrow>
               (case write_parts parts data [] of
                  (err, sub') \<Rightarrow> (err, AList.update part (Dir sub') es)))"

definition writeFileToDirectoryHandle ::
  "(string \<times> node) list \<Rightarrow> string \<Rightarrow> string \<Rightarrow> dom_error option \<times> (string \<times> node) list" where
  "writeFileToDirectoryHandle directoryHandle relativePath data =
     (let pathParts = js_split (CHR ''/'') relativePath
      in write_parts pathParts data directoryHandle)"

text \<open>\<open>for (const modifiedFile of pendingChanges) await writeFileToDirectoryHandle(...)\<close>: the
  first write that throws ends the loop.\<close>

fun apply_changes ::
  "modified_file list \<Rightarrow> (string \<times> node) list \<Rightarrow> dom_error option \<times> (string \<times> node) list" where
  "apply_changes [] h = (None, h)"
| "apply_changes (modifiedFile # rest) h =
     (case writeFileToDirectoryHandle h (mfPath modifiedFile) (modifiedContent modifiedFile) of
        (Some e, h') \<Rightarrow> (Some e, h')
      | (None, h') \<Rightarrow> apply_changes rest h')"

datatype notice =
    SelectFolderFirst
  | FolderOnly
  | AgentFailed
  | NothingToApply
  | ChangesApplied
  | ApplyFailed dom_error

record client =
  directoryHandle :: "(string \<times> node) list option"
  localRoute :: string
  isNovo :: bool
  pendingChanges :: "modified_file list"
  originalFiles :: "file_record list"
  activeDiffTab :: string
  showDiffPanel :: bool
  showCodeAgentDiff :: bool
  messages :: "string list"
  implemented :: bool
  notification :: "notice option"

text \<open>\<open>handleApproveChanges\<close>.\<close>

definition handleApproveChanges :: "client \<Rightarrow> client" where
  "handleApproveChanges st =
     (case directoryHandle st of
        None \<Rightarrow> st\<lparr>notification := Some NothingToApply\<rparr>
      | Some h \<Rightarrow>
          if pendingChanges st = [] then st\<lparr>notification := Some NothingToApply\<rparr>
          else
            (case apply_changes (pendingChanges st) h of
               (None, h') \<Rightarrow>
                 st\<lparr>directoryHandle := Some h', notification := Some ChangesApplied,
                    implemented := True, pendingChanges := [], originalFiles := [],
                    showDiffPanel := False, showCodeAgentDiff := False, activeDiffTab := []\<rparr>
             | (Some e, h') \<Rightarrow>
                 st\<lparr>directoryHandle := Some h', notification := Some (ApplyFailed e)\<rparr>))"

text \<open>The close button of the diff view: the proposal is dropped.\<close>

definition closeCodeAgentDiff :: "client \<Rightarrow> client" where
  "closeCodeAgentDiff st =
     st\<lparr>showCodeAgentDiff := False, pendingChanges := [], originalFiles := [],
        activeDiffTab := []\<rparr>"

definition IGNORE_DIRS_COMMON :: "string list" where
  "IGNORE_DIRS_COMMON =
     [''__pycache__'', ''node_modules'', ''.git'', ''.env'', ''img'', ''build'', ''dist'',
      ''out'', ''temp'', ''backups'', ''assets'', ''res'', ''example'', ''data'', ''sync'',
      ''util'', ''.gradle'', ''.idea'']"

definition IGNORE_DIRS_NOVO :: "string list" where
  "IGNORE_DIRS_NOVO =
     [''__pycache__'', ''node_modules'', ''.git'', ''.env'', ''img'', ''build'', ''dist'',
      ''out'', ''temp'', ''backups'', ''assets'', ''example'', ''.gradle'', ''.idea'', ''test'',
      ''core'', ''fastlane'', ''gradle'', ''Jenkins'', ''raw'']"

definition IGNORE_EXTENSIONS :: "string list" where
  "IGNORE_EXTENSIONS =
     [''.apk'', ''.lock'', ''.ttf'', ''.properties'', ''.gradle'', ''.json'', ''.env'', ''.git'',
      ''.png'', ''.jpg'', ''.jpeg'', ''.gif'', ''.svg'', ''.gitignore'', ''.ico'', ''.mp3'',
      ''.wav'', ''.mp4'', ''.mov'', ''.avi'', ''.wmv'', ''.pdf'', ''.doc'', ''.docx'', ''.ppt'',
      ''.pptx'']"

text \<open>\<open>readAllFilesFromDirectoryHandle\<close>: it only reads.\<close>

fun readAllFilesFromDirectoryHandle ::
  "bool \<Rightarrow> node \<Rightarrow> string \<Rightarrow> file_record list"
and readAllFiles_loop ::
  "bool \<Rightarrow> (string \<times> node) list \<Rightarrow> string \<Rightarrow> file_record list"
where
  "readAllFilesFromDirectoryHandle novo (Dir entries) relativePath =
     readAllFiles_loop novo entries relativePath"
| "readAllFilesFromDirectoryHandle novo (File c) relativePath = []"
| "readAllFiles_loop novo [] relativePath = []"
| "readAllFiles_loop novo ((name, entry) # entries) relativePath =
     (let entryPath = relativePath @ ''/'' @ name;
          IGNORE_DIRS = (if novo then IGNORE_DIRS_NOVO else IGNORE_DIRS_COMMON)
      in (case entry of
            File c \<Rightarrow>
              if list_ex (\<lambda>ext. endsWith name ext) IGNORE_EXTENSIONS then []
              else [\<lparr>filePath = tl entryPath, content = c\<rparr>]
          | Dir sub \<Rightarrow>
              if name \<in> set IGNORE_DIRS then []
              else readAllFilesFromDirectoryHandle novo entry entryPath)
         @ readAllFiles_loop novo entries relativePath)"

text \<open>The reading loop of \<open>handleCodeAgent\<close> over the records of the response. An empty
  \<open>modifiedFiles\<close> array makes \<open>data.modifiedFiles[0].filePath\<close> throw after the pending set
  was stored; the flag tells that the loop was left by the exception.\<close>

fun consume :: "payload list \<Rightarrow> client \<Rightarrow> bool \<times> client" where
  "consume [] st = (False, st)"
| "consume (Stdout s # rest) st =
     consume rest (if s \<noteq> [] then st\<lparr>messages := messages st @ [s]\<rparr> else st)"
| "consume (ModifiedFiles ms # rest) st =
     (case ms of
        [] \<Rightarrow> (True, st\<lparr>pendingChanges := []\<rparr>)
      | m # ms' \<Rightarrow>
          consume rest (st\<lparr>pendingChanges := ms, activeDiffTab := mfPath m,
                            showCodeAgentDiff := True, showDiffPanel := False\<rparr>))"
| "consume (other # rest) st = consume rest st"

text \<open>\<open>handleCodeAgent\<close>: the propose phase as the caller runs it. \<open>server\<close> is the
  endpoint \<open>/api/code-agent\<close> the request is posted to. Of the \<open>catch\<close> block the
  notification is kept; the assistant message with the error text that it also appends to
  the chat is left out, so \<open>messages\<close> holds the forwarded output only.\<close>

definition handleCodeAgent :: "(request \<Rightarrow> response) \<Rightarrow> string \<Rightarrow> client \<Rightarrow> client" where
  "handleCodeAgent server prompt' st =
     (if trim (localRoute st) = [] \<and> directoryHandle st = None
      then st\<lparr>notification := Some SelectFolderFirst\<rparr>
      else
        (case directoryHandle st of
           None \<Rightarrow> st\<lparr>notification := Some FolderOnly\<rparr>
         | Some h \<Rightarrow>
             let filesToProcess = readAllFilesFromDirectoryHandle (isNovo st) (Dir h) [];
                 trimmedFiles =
                   map (\<lambda>file. if content file \<noteq> [] then file\<lparr>content := trim (content file)\<rparr>
                               else file) filesToProcess;
                 st1 = st\<lparr>originalFiles := filesToProcess\<rparr>;
                 response = server \<lparr>prompt = prompt', files = trimmedFiles\<rparr>
             in if \<not> (200 \<le> statusCode response \<and> statusCode response < 300)
                then st1\<lparr>notification := Some AgentFailed\<rparr>
                else
                  (case consume (body response) st1 of
                     (True, st2) \<Rightarrow> st2\<lparr>notification := Some AgentFailed\<rparr>
                   | (False, st2) \<Rightarrow> st2)))"


section \<open>Notions the statements use\<close>

text \<open>An absolute path string from its pieces.\<close>

definition abs_path :: "string list \<Rightarrow> string" where
  "abs_path segs = ''/'' @ js_join ''/'' segs"

text \<open>A directory tree of the disk: proper names, no name twice in a directory.\<close>

fun wf_node :: "node \<Rightarrow> bool"
and wf_entries :: "(string \<times> node) list \<Rightarrow> bool"
where
  "wf_node (File c) = True"
| "wf_node (Dir es) = wf_entries es"
| "wf_entries [] = True"
| "wf_entries ((n, e) # es) =
     (valid_name n \<and> n \<notin> fst ` set es \<and> wf_node e \<and> wf_entries es)"

text \<open>The files of a tree in directory order, each with the names that lead to it and its
  content.\<close>

fun files_of :: "node \<Rightarrow> (string list \<times> string) list"
and files_of_entries :: "(string \<times> node) list \<Rightarrow> (string list \<times> string) list"
where
  "files_of (File c) = [([], c)]"
| "files_of (Dir es) = files_of_entries es"
| "files_of_entries [] = []"
| "files_of_entries ((n, e) # es) =
     map (\<lambda>(p, c). (n # p, c)) (files_of e) @ files_of_entries es"

text \<open>The path the detector reports for the file reached by the names \<open>segs\<close>.\<close>

definition reported_path :: "string list \<Rightarrow> string" where
  "reported_path segs = replace_backslashes (js_join ''/'' segs)"

text \<open>The content of the file that the names lead to in a tree, if there is one.\<close>

definition file_at :: "node \<Rightarrow> string list \<Rightarrow> string option" where
  "file_at n segs = (case lookup n segs of Some (File c) \<Rightarrow> Some c | _ \<Rightarrow> None)"

text \<open>Whether the names lead to a directory of a tree.\<close>

definition dir_at :: "node \<Rightarrow> string list \<Rightarrow> bool" where
  "dir_at n segs = (case lookup n segs of Some (Dir es) \<Rightarrow> True | _ \<Rightarrow> False)"

text \<open>A path string made of proper names only, and one with no \<open>..\<close> between its
  slashes.\<close>

definition proper_path :: "string \<Rightarrow> bool" where
  "proper_path p \<longleftrightarrow> list_all valid_name (js_split (CHR ''/'') p)"

definition dotdot_free :: "string \<Rightarrow> bool" where
  "dotdot_free p \<longleftrightarrow> ''..'' \<notin> set (js_split (CHR ''/'') p)"

section \<open>Notions the proofs about the commit use\<close>

text \<open>A write is settled in a folder when it would create no entry there: every part it
  walks is refused or present.\<close>

fun settled :: "(string \<times> node) list \<Rightarrow> string list \<Rightarrow> bool" where
  "settled es [] = True"
| "settled es [f] = (\<not> valid_name f \<or> map_of es f \<noteq> None)"
| "settled es (d # ps) =
     (\<not> valid_name d \<or>
      (case map_of es d of
         None \<Rightarrow> False
       | Some (File c) \<Rightarrow> True
       | Some (Dir sub) \<Rightarrow> settled sub ps))"

text \<open>What a write whose first part names an entry does to that entry, the outcome it
  has there, and whether it is settled there.\<close>

definition wentry :: "string list \<Rightarrow> string \<Rightarrow> node option \<Rightarrow> node option" where
  "wentry ps data entry =
     (if ps = [] then
        (case entry of Some (Dir sub) \<Rightarrow> None | _ \<Rightarrow> Some (File data))
      else
        (case entry of
           Some (File c) \<Rightarrow> None
         | Some (Dir sub) \<Rightarrow> Some (Dir (snd (write_parts ps data sub)))
         | None \<Rightarrow> Some (Dir (snd (write_parts ps data [])))))"

definition fentry :: "string list \<Rightarrow> string \<Rightarrow> node option \<Rightarrow> dom_error option" where
  "fentry ps data entry =
     (if ps = [] then
        (case entry of Some (Dir sub) \<Rightarrow> Some TypeMismatchError | _ \<Rightarrow> None)
      else
        (case entry of
           Some (File c) \<Rightarrow> Some TypeMismatchError
         | Some (Dir sub) \<Rightarrow> fst (write_parts ps data sub)
         | None \<Rightarrow> fst (write_parts ps data [])))"

definition sentry :: "string list \<Rightarrow> node option \<Rightarrow> bool" where
  "sentry ps entry =
     (case entry of
        None \<Rightarrow> False
      | Some (File c) \<Rightarrow> True
      | Some (Dir sub) \<Rightarrow> ps = [] \<or> settled sub ps)"

text \<open>The write of one pending change, its outcome, the writes of a list one after the
  other, and the changes a commit gets to before it ends.\<close>

definition parts_of :: "modified_file \<Rightarrow> string list" where
  "parts_of m = js_split (CHR ''/'') (mfPath m)"

definition write_of :: "modified_file \<Rightarrow> (string \<times> node) list \<Rightarrow> (string \<times> node) list" where
  "write_of m h = snd (writeFileToDirectoryHandle h (mfPath m) (modifiedContent m))"

definition flag_of :: "modified_file \<Rightarrow> (string \<times> node) list \<Rightarrow> dom_error option" where
  "flag_of m h = fst (writeFileToDirectoryHandle h (mfPath m) (modifiedContent m))"

fun run_writes :: "modified_file list \<Rightarrow> (string \<times> node) list \<Rightarrow> (string \<times> node) list" where
  "run_writes [] h = h"
| "run_writes (m # ms) h = run_writes ms (write_of m h)"

fun attempted :: "modified_file list \<Rightarrow> (string \<times> node) list \<Rightarrow> modified_file list" where
  "attempted [] h = []"
| "attempted (m # ms) h =
     m # (case flag_of m h of None \<Rightarrow> attempted ms (write_of m h) | Some e \<Rightarrow> [])"

section \<open>Facts about strings and paths\<close>

lemma js_split_not_Nil [simp]: "js_split sep s \<noteq> []"
  by (induction s) (auto split: list.splits)

lemma js_split_append_sep:
  "js_split sep (xs @ sep # ys) = js_split sep xs @ js_split sep ys"
proof (induction xs)
  case Nil
  show ?case by simp
next
  case (Cons x xs)
  show ?case
  proof (cases "x = sep")
    case True
    with Cons show ?thesis by simp
  next
    case False
    obtain w ws where w: "js_split sep xs = w # ws"
      by (cases "js_split sep xs") simp_all
    with False Cons show ?thesis by simp
  qed
qed

lemma js_split_no_sep: "sep \<notin> set s \<Longrightarrow> js_split sep s = [s]"
  by (induction s) auto

lemma js_split_join:
  "segs \<noteq> [] \<Longrightarrow> \<forall>s \<in> set segs. CHR ''/'' \<notin> set s \<Longrightarrow>
   js_split (CHR ''/'') (js_join ''/'' segs) = segs"
proof (induction "''/'' :: string" segs rule: js_join.induct)
  case 1
  then show ?case by simp
next
  case (2 x)
  then show ?case by (simp add: js_split_no_sep)
next
  case (3 x y ys)
  then have "js_split (CHR ''/'') (js_join ''/'' (y # ys)) = y # ys" by simp
  moreover have "js_split (CHR ''/'') x = [x]" using 3 by (simp add: js_split_no_sep)
  ultimately show ?case
    using js_split_append_sep [of "CHR ''/''" x "js_join ''/'' (y # ys)"] by simp
qed

lemma normalizeString_no_dotdot:
  "''..'' \<notin> set ss \<Longrightarrow>
   normalizeString a res ss = res @ filter (\<lambda>s. s \<noteq> [] \<and> s \<noteq> ''.'') ss"
  by (induction ss arbitrary: res) auto

lemma valid_name_filter:
  "\<forall>s \<in> set ss. valid_name s \<Longrightarrow> filter (\<lambda>s. s \<noteq> [] \<and> s \<noteq> ''.'') ss = ss"
  by (induction ss) (auto simp: valid_name_def)

lemma valid_names_no_dotdot: "\<forall>s \<in> set ss. valid_name s \<Longrightarrow> ''..'' \<notin> set ss"
  by (auto simp: valid_name_def)

lemma js_split_abs_path:
  "\<forall>s \<in> set segs. valid_name s \<Longrightarrow>
   js_split (CHR ''/'') (abs_path segs) = [] # (if segs = [] then [[]] else segs)"
proof (cases "segs = []")
  case True
  then show ?thesis by (simp add: abs_path_def)
next
  case False
  assume v: "\<forall>s \<in> set segs. valid_name s"
  then have "\<forall>s \<in> set segs. CHR ''/'' \<notin> set s" by (simp add: valid_name_def)
  with False have "js_split (CHR ''/'') (js_join ''/'' segs) = segs" by (rule js_split_join)
  with False show ?thesis
    using js_split_append_sep [of "CHR ''/''" "[]" "js_join ''/'' segs"]
    by (simp add: abs_path_def)
qed

lemma fs_segments_abs_path:
  "\<forall>s \<in> set segs. valid_name s \<Longrightarrow> fs_segments (abs_path segs) = segs"
  by (simp add: fs_segments_def js_split_abs_path normalizeString_no_dotdot
      valid_names_no_dotdot valid_name_filter)

lemma js_join_nonempty:
  "segs \<noteq> [] \<Longrightarrow> \<forall>s \<in> set segs. s \<noteq> [] \<Longrightarrow> js_join sep segs \<noteq> []"
  by (induction sep segs rule: js_join.induct) auto

lemma last_js_join:
  "segs \<noteq> [] \<Longrightarrow> \<forall>s \<in> set segs. s \<noteq> [] \<Longrightarrow> last (js_join sep segs) = last (last segs)"
  by (induction sep segs rule: js_join.induct) (auto simp: js_join_nonempty)

lemma js_join_snoc:
  "segs \<noteq> [] \<Longrightarrow> js_join sep (segs @ [n]) = js_join sep segs @ sep @ n"
  by (induction sep segs rule: js_join.induct) auto

lemma path_join_abs_path:
  assumes ps: "\<forall>s \<in> set ps. valid_name s" and n: "valid_name n"
  shows "path_join (abs_path ps) n = abs_path (ps @ [n])"
proof -
  let ?j = "abs_path ps @ ''/'' @ n"
  have n0: "n \<noteq> []" and nsl: "CHR ''/'' \<notin> set n" using n by (simp_all add: valid_name_def)
  have split: "js_split (CHR ''/'') ?j = js_split (CHR ''/'') (abs_path ps) @ [n]"
    using js_split_append_sep [of "CHR ''/''" "abs_path ps" n] nsl
    by (simp add: js_split_no_sep)
  have all: "\<forall>s \<in> set (ps @ [n]). valid_name s" using ps n by simp
  have "''..'' \<notin> set ([] # (if ps = [] then [[]] else ps) @ [n])"
    using all by (auto simp: valid_name_def)
  then have norm: "normalizeString False [] (js_split (CHR ''/'') ?j) = ps @ [n]"
    unfolding split js_split_abs_path [OF ps]
    using all by (simp add: normalizeString_no_dotdot valid_name_filter) (simp add: valid_name_def)
  have ne: "js_join ''/'' (ps @ [n]) \<noteq> []"
    using all by (intro js_join_nonempty) (auto simp: valid_name_def)
  have lastj: "last ?j \<noteq> CHR ''/''" using n0 nsl by (metis append_is_Nil_conv last_appendR last_in_set)
  have hdj: "hd ?j = CHR ''/''" by (simp add: abs_path_def)
  have "path_join (abs_path ps) n = path_normalize ?j"
    using n0 by (simp add: path_join_def abs_path_def)
  also have "\<dots> = ''/'' @ js_join ''/'' (ps @ [n])"
    using ne lastj hdj norm by (simp add: path_normalize_def Let_def)
  finally show ?thesis by (simp add: abs_path_def)
qed

lemma drop_common_append: "drop_common rs (rs @ segs) = ([], segs)"
proof (induction rs)
  case Nil
  show ?case by (cases segs) simp_all
next
  case (Cons r rs)
  then show ?case by simp
qed

lemma path_relative_abs_path:
  assumes "\<forall>s \<in> set rs. valid_name s" and "\<forall>s \<in> set segs. valid_name s"
  shows "path_relative (abs_path rs) (abs_path (rs @ segs)) = js_join ''/'' segs"
proof -
  have "\<forall>s \<in> set (rs @ segs). valid_name s" using assms by auto
  then have "fs_segments (abs_path (rs @ segs)) = rs @ segs" by (rule fs_segments_abs_path)
  moreover have "fs_segments (abs_path rs) = rs" using assms(1) by (rule fs_segments_abs_path)
  ultimately show ?thesis
    by (simp add: path_relative_def fs_segments_def drop_common_append)
qed

section \<open>Facts about the walk of the workspace\<close>

lemma lookup_append:
  "lookup fs rs = Some w \<Longrightarrow> lookup fs (rs @ segs) = lookup w segs"
proof (induction fs rs rule: lookup.induct)
  case (1 n)
  then show ?case by simp
next
  case (2 c s ss)
  then show ?case by simp
next
  case (3 es s ss)
  then show ?case by (auto split: option.splits)
qed

lemma files_of_wf:
  "wf_node n \<Longrightarrow> (segs, c) \<in> set (files_of n) \<Longrightarrow>
     lookup n segs = Some (File c) \<and> (\<forall>s \<in> set segs. valid_name s)"
  "wf_entries es \<Longrightarrow> (segs, c) \<in> set (files_of_entries es) \<Longrightarrow>
     lookup (Dir es) segs = Some (File c) \<and> (\<forall>s \<in> set segs. valid_name s) \<and> segs \<noteq> []"
proof (induction n and es arbitrary: segs c and segs c rule: files_of_files_of_entries.induct)
  case (1 c')
  then show ?case by simp
next
  case (2 es)
  then show ?case by simp
next
  case 3
  then show ?case by simp
next
  case (4 n e es)
  from "4.prems"(1) have vn: "valid_name n" and fresh: "n \<notin> fst ` set es"
    and wfe: "wf_node e" and wfes: "wf_entries es" by simp_all
  from "4.prems"(2) consider
    (here) p where "segs = n # p" "(p, c) \<in> set (files_of e)"
    | (there) "(segs, c) \<in> set (files_of_entries es)"
    by auto
  then show ?case
  proof cases
    case here
    with "4.IH"(1) [OF wfe here(2)] vn show ?thesis by simp
  next
    case there
    from "4.IH"(2) [OF wfes there]
    have l: "lookup (Dir es) segs = Some (File c)" and v: "\<forall>s \<in> set segs. valid_name s"
      and ne: "segs \<noteq> []" by simp_all
    from ne obtain s ss where segs: "segs = s # ss" by (cases segs) auto
    with l have "map_of es s \<noteq> None" by (auto split: option.splits)
    then have "s \<in> fst ` set es" by (simp add: map_of_eq_None_iff)
    with fresh have "s \<noteq> n" by auto
    with l segs v show ?thesis by simp
  qed
qed

lemma getAllFiles_files_of:
  "\<forall>s \<in> set ps. valid_name s \<Longrightarrow> wf_node n \<Longrightarrow>
     getAllFiles (abs_path ps) n fileList
       = fileList @ (case n of File c \<Rightarrow> [] | Dir es \<Rightarrow>
            map (\<lambda>(segs, c). abs_path (ps @ segs)) (files_of n))"
  "\<forall>s \<in> set ps. valid_name s \<Longrightarrow> wf_entries es \<Longrightarrow>
     getAllFiles_loop (abs_path ps) es fileList
       = fileList @ map (\<lambda>(segs, c). abs_path (ps @ segs)) (files_of_entries es)"
proof (induction n and es arbitrary: ps fileList and ps fileList
       rule: files_of_files_of_entries.induct)
  case (1 c)
  then show ?case by simp
next
  case (2 es)
  then show ?case by simp
next
  case 3
  then show ?case by simp
next
  case (4 n e es)
  from "4.prems" have vn: "valid_name n" and wfe: "wf_node e" and wfes: "wf_entries es"
    by simp_all
  have pj: "path_join (abs_path ps) n = abs_path (ps @ [n])"
    using "4.prems"(1) vn by (rule path_join_abs_path)
  have v': "\<forall>s \<in> set (ps @ [n]). valid_name s" using "4.prems"(1) vn by simp
  show ?case
  proof (cases e)
    case (File c)
    then show ?thesis
      using "4.IH"(2) [OF "4.prems"(1) wfes] by (simp add: pj)
  next
    case (Dir sub)
    have "getAllFiles (abs_path (ps @ [n])) e fileList
            = fileList @ map (\<lambda>(segs, c). abs_path ((ps @ [n]) @ segs)) (files_of e)"
      using "4.IH"(1) [OF v' wfe, of fileList] Dir by simp
    then show ?thesis
      using "4.IH"(2) [OF "4.prems"(1) wfes] Dir
      by (simp add: pj case_prod_unfold comp_def)
  qed
qed

section \<open>Facts about the change detector\<close>

lemma last_abs_path:
  "segs \<noteq> [] \<Longrightarrow> \<forall>s \<in> set segs. valid_name s \<Longrightarrow> last (abs_path segs) \<noteq> CHR ''/''"
proof -
  assume ne: "segs \<noteq> []" and v: "\<forall>s \<in> set segs. valid_name s"
  then have a: "\<forall>s \<in> set segs. s \<noteq> []" by (simp add: valid_name_def)
  have "last segs \<in> set segs" using ne by simp
  with v have l: "last segs \<noteq> []" "CHR ''/'' \<notin> set (last segs)" by (simp_all add: valid_name_def)
  have "last (abs_path segs) = last (last segs)"
    using ne a by (simp add: abs_path_def js_join_nonempty last_js_join)
  with l show ?thesis by (metis last_in_set)
qed

lemma fs_readFile_abs_path:
  assumes "segs \<noteq> []" "\<forall>s \<in> set segs. valid_name s" "lookup fs segs = Some (File c)"
  shows "fs_readFile (abs_path segs) fs = Inr c"
  using assms last_abs_path [OF assms(1,2)]
  by (simp add: fs_readFile_def fs_segments_abs_path)

lemma diff_loop_files:
  assumes rs: "\<forall>s \<in> set rs. valid_name s"
    and fl: "\<forall>(segs, c) \<in> set fl. segs \<noteq> [] \<and> (\<forall>s \<in> set segs. valid_name s)
               \<and> lookup fs (rs @ segs) = Some (File c)"
  shows "diff_loop (abs_path rs) orig fs (map (\<lambda>(segs, c). abs_path (rs @ segs)) fl) acc
         = Inr (acc @ map (\<lambda>(segs, c). \<lparr>mfPath = reported_path segs, modifiedContent = c\<rparr>)
                        (filter (\<lambda>(segs, c). orig (reported_path segs) \<noteq> Some c) fl))"
  using fl
proof (induction fl arbitrary: acc)
  case Nil
  show ?case by simp
next
  case (Cons f fl)
  obtain segs c where f: "f = (segs, c)" by (cases f)
  from Cons.prems f have ne: "segs \<noteq> []" and v: "\<forall>s \<in> set segs. valid_name s"
    and l: "lookup fs (rs @ segs) = Some (File c)" by simp_all
  have rel: "path_relative (abs_path rs) (abs_path (rs @ segs)) = js_join ''/'' segs"
    using rs v by (rule path_relative_abs_path)
  have rd: "fs_readFile (abs_path (rs @ segs)) fs = Inr c"
    using ne rs v l by (intro fs_readFile_abs_path) auto
  from Cons.prems have "\<forall>(segs, c) \<in> set fl. segs \<noteq> [] \<and> (\<forall>s \<in> set segs. valid_name s)
               \<and> lookup fs (rs @ segs) = Some (File c)" by simp
  note IH = Cons.IH [OF this]
  show ?case
    by (simp add: f rel rd IH reported_path_def)
qed

lemma cli_inject_diff_loop_files:
  assumes rs: "\<forall>s \<in> set rs. valid_name s"
    and fl: "\<forall>(segs, c) \<in> set fl. segs \<noteq> [] \<and> (\<forall>s \<in> set segs. valid_name s)
               \<and> lookup fs (rs @ segs) = Some (File c)"
  shows "cli_inject_diff_loop (abs_path rs) orig fs
           (map (\<lambda>(segs, c). abs_path (rs @ segs)) fl) acc
         = Inr (acc @ map (\<lambda>(segs, c). \<lparr>mfPath = reported_path segs, modifiedContent = c\<rparr>)
                        (filter (\<lambda>(segs, c). path_basename (reported_path segs) \<noteq> ''GEMINI.md''
                                   \<and> orig (reported_path segs) \<noteq> Some c) fl))"
  using fl
proof (induction fl arbitrary: acc)
  case Nil
  show ?case by simp
next
  case (Cons f fl)
  obtain segs c where f: "f = (segs, c)" by (cases f)
  from Cons.prems f have ne: "segs \<noteq> []" and v: "\<forall>s \<in> set segs. valid_name s"
    and l: "lookup fs (rs @ segs) = Some (File c)" by simp_all
  have rel: "path_relative (abs_path rs) (abs_path (rs @ segs)) = js_join ''/'' segs"
    using rs v by (rule path_relative_abs_path)
  have rd: "fs_readFile (abs_path (rs @ segs)) fs = Inr c"
    using ne rs v l by (intro fs_readFile_abs_path) auto
  from Cons.prems have "\<forall>(segs, c) \<in> set fl. segs \<noteq> [] \<and> (\<forall>s \<in> set segs. valid_name s)
               \<and> lookup fs (rs @ segs) = Some (File c)" by simp
  note IH = Cons.IH [OF this]
  show ?case
    by (simp add: f rel rd IH reported_path_def Let_def)
qed

lemma valid_USER_FILES: "valid_name ''USER_FILES''"
  by (simp add: valid_name_def)

lemma workspace_files:
  assumes ds: "\<forall>s \<in> set ds. valid_name s"
    and ws: "lookup fs (ds @ [''USER_FILES'']) = Some (Dir es)"
    and wf: "wf_entries es"
  shows "path_join (abs_path ds) ''USER_FILES'' = abs_path (ds @ [''USER_FILES''])"
    and "fs_segments (abs_path (ds @ [''USER_FILES''])) = ds @ [''USER_FILES'']"
    and "getAllFiles (abs_path (ds @ [''USER_FILES''])) (Dir es) []
           = map (\<lambda>(segs, c). abs_path ((ds @ [''USER_FILES'']) @ segs)) (files_of (Dir es))"
    and "\<forall>(segs, c) \<in> set (files_of (Dir es)). segs \<noteq> [] \<and> (\<forall>s \<in> set segs. valid_name s)
           \<and> lookup fs ((ds @ [''USER_FILES'']) @ segs) = Some (File c)"
proof -
  let ?rs = "ds @ [''USER_FILES'']"
  have rs: "\<forall>s \<in> set ?rs. valid_name s" using ds valid_USER_FILES by simp
  show "path_join (abs_path ds) ''USER_FILES'' = abs_path ?rs"
    using ds valid_USER_FILES by (rule path_join_abs_path)
  show "fs_segments (abs_path ?rs) = ?rs" using rs by (rule fs_segments_abs_path)
  show "getAllFiles (abs_path ?rs) (Dir es) []
           = map (\<lambda>(segs, c). abs_path (?rs @ segs)) (files_of (Dir es))"
    using getAllFiles_files_of(1) [OF rs, of "Dir es" "[]"] wf by simp
  show "\<forall>(segs, c) \<in> set (files_of (Dir es)). segs \<noteq> [] \<and> (\<forall>s \<in> set segs. valid_name s)
           \<and> lookup fs (?rs @ segs) = Some (File c)"
    using files_of_wf(2) [OF wf] lookup_append [OF ws] by auto
qed

lemma detect_changes_files:
  assumes ds: "\<forall>s \<in> set ds. valid_name s"
    and ws: "lookup fs (ds @ [''USER_FILES'']) = Some (Dir es)"
    and wf: "wf_entries es"
  shows "detect_changes (path_join (abs_path ds) ''USER_FILES'') orig fs
         = Inr (map (\<lambda>(segs, c). \<lparr>mfPath = reported_path segs, modifiedContent = c\<rparr>)
                  (filter (\<lambda>(segs, c). orig (reported_path segs) \<noteq> Some c)
                     (files_of (Dir es))))"
proof -
  have rs: "\<forall>s \<in> set (ds @ [''USER_FILES'']). valid_name s"
    using ds valid_USER_FILES by simp
  note w = workspace_files [OF ds ws wf]
  show ?thesis
    unfolding detect_changes_def w(1) w(2) ws
    using diff_loop_files [OF rs w(4), of orig "[]"] w(3) by simp
qed

lemma cli_inject_detect_changes_files:
  assumes ds: "\<forall>s \<in> set ds. valid_name s"
    and ws: "lookup fs (ds @ [''USER_FILES'']) = Some (Dir es)"
    and wf: "wf_entries es"
  shows "cli_inject_detect_changes (path_join (abs_path ds) ''USER_FILES'') orig fs
         = Inr (map (\<lambda>(segs, c). \<lparr>mfPath = reported_path segs, modifiedContent = c\<rparr>)
                  (filter (\<lambda>(segs, c). path_basename (reported_path segs) \<noteq> ''GEMINI.md''
                             \<and> orig (reported_path segs) \<noteq> Some c)
                     (files_of (Dir es))))"
proof -
  have rs: "\<forall>s \<in> set (ds @ [''USER_FILES'']). valid_name s"
    using ds valid_USER_FILES by simp
  note w = workspace_files [OF ds ws wf]
  show ?thesis
    unfolding cli_inject_detect_changes_def w(1) w(2) ws
    using cli_inject_diff_loop_files [OF rs w(4), of orig "[]"] w(3) by simp
qed

lemma path_basename_last:
  assumes "segs \<noteq> []" "\<forall>s \<in> set segs. valid_name s" "CHR 0x5C \<notin> set (last segs)"
  shows "path_basename (reported_path segs) = last segs"
proof -
  have l: "last segs \<noteq> []" "CHR ''/'' \<notin> set (last segs)"
    using assms(1,2) by (auto simp: valid_name_def)
  have rl: "replace_backslashes (last segs) = last segs"
    using assms(3) by (auto simp: replace_backslashes_def intro!: map_idI)
  have "\<exists>pre. reported_path segs = pre @ last segs \<and> (pre = [] \<or> last pre = CHR ''/'')"
  proof (cases "butlast segs = []")
    case True
    with assms(1) have "segs = [last segs]" by (metis append_butlast_last_id append_Nil)
    then have "reported_path segs = last segs" using rl by (metis js_join.simps(2) reported_path_def)
    then show ?thesis by simp
  next
    case False
    have "segs = butlast segs @ [last segs]" using assms(1) by simp
    then have "js_join ''/'' segs = js_join ''/'' (butlast segs) @ ''/'' @ last segs"
      using js_join_snoc [OF False] by metis
    then have "reported_path segs
                = (replace_backslashes (js_join ''/'' (butlast segs)) @ ''/'') @ last segs"
      using rl by (simp add: reported_path_def replace_backslashes_def)
    then show ?thesis by (metis last_snoc)
  qed
  then obtain pre where p: "reported_path segs = pre @ last segs"
    and pl: "pre = [] \<or> last pre = CHR ''/''" by blast
  have d: "dropWhile (\<lambda>c. c = CHR ''/'') (rev (last segs) @ rev pre) = rev (last segs) @ rev pre"
    using l by (cases "rev (last segs)") (auto simp: hd_rev)
  have t: "takeWhile (\<lambda>c. c \<noteq> CHR ''/'') (rev (last segs) @ rev pre) = rev (last segs)"
  proof (cases "pre = []")
    case True
    with l show ?thesis by auto
  next
    case False
    with pl have "hd (rev pre) = CHR ''/''" by (simp add: hd_rev)
    with False have "takeWhile (\<lambda>c. c \<noteq> CHR ''/'') (rev pre) = []"
      by (cases "rev pre") auto
    moreover have "takeWhile (\<lambda>c. c \<noteq> CHR ''/'') (rev (last segs) @ rev pre)
                     = rev (last segs) @ takeWhile (\<lambda>c. c \<noteq> CHR ''/'') (rev pre)"
      by (rule takeWhile_append2) (use l in auto)
    ultimately show ?thesis by simp
  qed
  show ?thesis by (simp add: path_basename_def p d t)
qed

section \<open>Facts about the forwarding of standard output\<close>

lemma body_write_lines:
  "\<not> writableEnded res \<Longrightarrow>
   body (write_lines ls res) = body res @ map Stdout ls \<and> \<not> writableEnded (write_lines ls res)"
  by (induction ls arbitrary: res) (simp_all add: res_write_def)

lemma body_stdout_events:
  "\<not> writableEnded res \<Longrightarrow>
   body (stdout_events chunks res) =
     body res @ map Stdout (concat (map (\<lambda>chunk. filter (\<lambda>line. trim line \<noteq> [])
        (js_split (CHR 0x0A) chunk)) chunks))
   \<and> \<not> writableEnded (stdout_events chunks res)"
proof (induction chunks arbitrary: res)
  case Nil
  then show ?case by simp
next
  case (Cons c cs)
  from Cons.prems have 1:
    "body (on_stdout_data c res) =
       body res @ map Stdout (filter (\<lambda>line. trim line \<noteq> []) (js_split (CHR 0x0A) c))"
    and 2: "\<not> writableEnded (on_stdout_data c res)"
    by (simp_all add: on_stdout_data_def body_write_lines)
  from Cons.IH [OF 2] 1 show ?case by simp
qed

lemma aligned_chunks_lines:
  "\<forall>c \<in> set chunks. c = [] \<or> last c = CHR 0x0A \<Longrightarrow>
   concat (map (\<lambda>chunk. filter (\<lambda>line. trim line \<noteq> []) (js_split (CHR 0x0A) chunk)) chunks)
     = filter (\<lambda>line. trim line \<noteq> []) (butlast (js_split (CHR 0x0A) (concat chunks)))"
proof (induction chunks)
  case Nil
  show ?case by simp
next
  case (Cons c cs)
  then have IH:
    "concat (map (\<lambda>chunk. filter (\<lambda>line. trim line \<noteq> []) (js_split (CHR 0x0A) chunk)) cs)
       = filter (\<lambda>line. trim line \<noteq> []) (butlast (js_split (CHR 0x0A) (concat cs)))"
    by simp
  show ?case
  proof (cases "c = []")
    case True
    with IH show ?thesis by (simp add: trim_def)
  next
    case False
    with Cons.prems have "last c = CHR 0x0A" by simp
    with False obtain xs where c: "c = xs @ [CHR 0x0A]"
      by (metis append_butlast_last_id)
    have a: "js_split (CHR 0x0A) c = js_split (CHR 0x0A) xs @ [[]]"
      using js_split_append_sep [of "CHR 0x0A" xs "[]"] by (simp add: c)
    have b: "js_split (CHR 0x0A) (c @ concat cs)
               = js_split (CHR 0x0A) xs @ js_split (CHR 0x0A) (concat cs)"
      using js_split_append_sep [of "CHR 0x0A" xs "concat cs"] by (simp add: c)
    show ?thesis
      using IH by (simp add: a b butlast_append trim_def)
  qed
qed

section \<open>Facts about the browser side\<close>

lemma consume_directoryHandle:
  "consume ps st = (threw, st') \<Longrightarrow> directoryHandle st' = directoryHandle st"
  by (induction ps st rule: consume.induct) (auto split: list.splits)

lemma handleCodeAgent_directoryHandle:
  "directoryHandle (handleCodeAgent server prompt' st) = directoryHandle st"
  by (auto simp: handleCodeAgent_def Let_def split: option.splits prod.splits bool.splits
      dest: consume_directoryHandle)

lemma failed_write_keeps_files:
  "write_parts ps data es = (Some e, es') \<Longrightarrow>
     (lookup (Dir es') q = Some (File x)) = (lookup (Dir es) q = Some (File x))"
proof (induction ps data es arbitrary: es' q rule: write_parts.induct)
  case (1 data es)
  then show ?case by simp
next
  case (2 fileName data es)
  then show ?case by (auto split: if_splits option.splits node.splits)
next
  case (3 part v va data es)
  show ?case
  proof (cases "valid_name part")
    case False
    with 3 show ?thesis by simp
  next
    case True
    show ?thesis
    proof (cases "map_of es part")
      case None
      obtain err sub' where w: "write_parts (v # va) data [] = (err, sub')"
        by (cases "write_parts (v # va) data []")
      with "3.prems" True None have e: "err = Some e" and es': "es' = AList.update part (Dir sub') es"
        by simp_all
      have sub: "\<And>q. (lookup (Dir sub') q = Some (File x)) = (lookup (Dir []) q = Some (File x))"
        using "3.IH"(1) [OF _ None, of sub'] True w e by simp
      show ?thesis
      proof (cases q)
        case Nil
        then show ?thesis by simp
      next
        case (Cons s ss)
        show ?thesis
        proof (cases "s = part")
          case True
          with Cons None es' sub [of ss] show ?thesis
            by (cases ss) (simp_all add: update_conv')
        next
          case False
          with Cons es' show ?thesis by (simp add: update_conv')
        qed
      qed
    next
      case (Some n)
      show ?thesis
      proof (cases n)
        case (File c)
        with 3 True Some show ?thesis by simp
      next
        case (Dir sub0)
        obtain err sub' where w: "write_parts (v # va) data sub0 = (err, sub')"
          by (cases "write_parts (v # va) data sub0")
        with "3.prems" True Some Dir have e: "err = Some e"
          and es': "es' = AList.update part (Dir sub') es" by simp_all
        have sub: "\<And>q. (lookup (Dir sub') q = Some (File x)) = (lookup (Dir sub0) q = Some (File x))"
          using "3.IH"(2) [OF _ Some Dir, of sub'] True w e by simp
        show ?thesis
        proof (cases q)
          case Nil
          then show ?thesis by simp
        next
          case (Cons s ss)
          show ?thesis
          proof (cases "s = part")
            case True
            with Cons Some Dir es' sub [of ss] show ?thesis by (simp add: update_conv')
          next
            case False
            with Cons es' show ?thesis by (simp add: update_conv')
          qed
        qed
      qed
    qed
  qed
qed

lemma apply_changes_append:
  "apply_changes done h = (None, h1) \<Longrightarrow>
   apply_changes (done @ rest) h = apply_changes rest h1"
  by (induction "done" arbitrary: h) (auto split: prod.splits option.splits)

lemma file_at_Some_iff: "file_at n q = Some x \<longleftrightarrow> lookup n q = Some (File x)"
  by (simp add: file_at_def split: option.splits node.splits)

lemma file_at_failed_write:
  assumes "write_parts ps data es = (Some e, es')"
  shows "file_at (Dir es') q = file_at (Dir es) q"
proof -
  have "file_at (Dir es') q = Some x \<longleftrightarrow> file_at (Dir es) q = Some x" for x
    unfolding file_at_Some_iff by (rule failed_write_keeps_files [OF assms])
  then show ?thesis
    by (metis option.exhaust)
qed

section \<open>Facts about the handler\<close>

text \<open>The definitions a concrete run is evaluated with.\<close>

lemmas eval_defs =
  code_agent_def prepare_def path_join_def path_normalize_def path_dirname_def
  fs_rm_def fs_mkdir_def fs_writeFile_def fs_readFile_def fs_segments_def Let_def on_close_def on_error_def
  on_stdout_data_def res_write_def res_end_def res_status_json_def new_response_def
  trim_def js_whitespace_def replace_backslashes_def detect_changes_def path_relative_def

text \<open>The three ways the \<open>close\<close> event ends a run: after a non-zero exit with nothing
  streamed the caller gets status 500 and the exit code; after exit code 0 the stream is the
  \<open>{stdout}\<close> records followed by one \<open>{modifiedFiles}\<close> record; after a non-zero exit with
  the headers already sent the stream is only ended.\<close>

lemma nonzero_exit_with_headers_sent:
  "headersSent res \<Longrightarrow> code \<noteq> Some 0 \<Longrightarrow>
   on_close userFilesDir originalFileContents fs code res = res_end res"
  by (simp add: on_close_def)

lemma nonzero_exit_without_output:
  "code \<noteq> Some 0 \<Longrightarrow>
   on_close userFilesDir originalFileContents fs code new_response
     = \<lparr>statusCode = 500, headersSent = True, body = [ExitError code], writableEnded = True\<rparr>"
  by (simp add: on_close_def new_response_def res_end_def res_status_json_def)

lemma zero_exit_stream:
  assumes "detect_changes userFilesDir originalFileContents fs = Inr ms"
  shows "on_close userFilesDir originalFileContents fs (Some 0) (stdout_events chunks new_response)
         = \<lparr>statusCode = 200, headersSent = True,
             body = map Stdout (concat (map (\<lambda>chunk. filter (\<lambda>line. trim line \<noteq> [])
                       (js_split (CHR 0x0A) chunk)) chunks)) @ [ModifiedFiles ms],
             writableEnded = True\<rparr>"
proof -
  have n: "\<not> writableEnded new_response" by (simp add: new_response_def)
  have s: "statusCode (stdout_events chunks res) = statusCode res" for res
  proof (induction chunks arbitrary: res)
    case Nil
    show ?case by simp
  next
    case (Cons c cs)
    have "statusCode (write_lines ls r) = statusCode r" for ls r
      by (induction ls arbitrary: r) (simp_all add: res_write_def)
    with Cons show ?case by (simp add: on_stdout_data_def)
  qed
  from body_stdout_events [OF n, of chunks] s [of new_response] assms show ?thesis
    by (simp add: on_close_def res_end_def res_write_def new_response_def)
qed

section \<open>Facts about the calls on the disk\<close>

lemma file_at_Nil [simp]: "file_at n [] = (case n of File c \<Rightarrow> Some c | Dir es \<Rightarrow> None)"
  by (simp add: file_at_def split: node.splits)

lemma file_at_File_Cons [simp]: "file_at (File c) (s # ss) = None"
  by (simp add: file_at_def)

lemma file_at_Dir_Cons:
  "file_at (Dir es) (s # ss) = (case map_of es s of None \<Rightarrow> None | Some n \<Rightarrow> file_at n ss)"
  by (simp add: file_at_def split: option.splits)

lemma file_at_not_Dir: "\<forall>sub. n \<noteq> Dir sub \<Longrightarrow> file_at n (s # ss) = None"
  by (cases n) simp_all

lemma file_at_mkdirp:
  "mkdirp p fs = Inr fs' \<Longrightarrow> file_at fs' q = file_at fs q"
proof (induction p fs arbitrary: fs' q rule: mkdirp.induct)
  case (1 es)
  then show ?case by simp
next
  case (2 c)
  then show ?case by simp
next
  case (3 s ss c)
  then show ?case by simp
next
  case (4 s ss es)
  let ?n = "case map_of es s of None \<Rightarrow> Dir [] | Some n \<Rightarrow> n"
  from "4.prems" obtain n' where n': "mkdirp ss ?n = Inr n'"
    and fs': "fs' = Dir (AList.update s n' es)"
    by (auto split: sum.splits)
  have IH: "file_at n' r = file_at ?n r" for r using "4.IH" [OF n'] .
  show ?case
  proof (cases q)
    case Nil
    with fs' show ?thesis by simp
  next
    case (Cons t ts)
    show ?thesis
    proof (cases "t = s")
      case True
      with Cons fs' IH [of ts] show ?thesis
        by (cases ts) (auto simp: file_at_Dir_Cons update_conv' split: option.splits)
    next
      case False
      with Cons fs' show ?thesis by (simp add: file_at_Dir_Cons update_conv')
    qed
  qed
qed

lemma file_at_writeFile:
  "writeFile p data fs = Inr fs' \<Longrightarrow>
   file_at fs' q = (if q = p then Some data else file_at fs q)"
proof (induction p data fs arbitrary: fs' q rule: writeFile.induct)
  case (1 data n)
  then show ?case by simp
next
  case (2 s ss data c)
  then show ?case by simp
next
  case (3 s data es)
  then have nd: "\<forall>sub. map_of es s \<noteq> Some (Dir sub)"
    and fs': "fs' = Dir (AList.update s (File data) es)"
    by (auto split: option.splits node.splits)
  show ?case
  proof (cases q)
    case Nil
    with fs' show ?thesis by simp
  next
    case (Cons t ts)
    show ?thesis
    proof (cases "t = s")
      case True
      with Cons fs' nd show ?thesis
        by (cases ts; cases "map_of es s")
           (auto simp: file_at_Dir_Cons update_conv' file_at_not_Dir split: node.splits)
    next
      case False
      with Cons fs' show ?thesis by (simp add: file_at_Dir_Cons update_conv')
    qed
  qed
next
  case (4 s v va data es)
  from "4.prems" obtain n n' where n: "map_of es s = Some n"
    and n': "writeFile (v # va) data n = Inr n'"
    and fs': "fs' = Dir (AList.update s n' es)"
    by (auto split: option.splits sum.splits)
  have IH: "file_at n' r = (if r = v # va then Some data else file_at n r)" for r
    using "4.IH" [OF n n'] .
  show ?case
  proof (cases q)
    case Nil
    with fs' show ?thesis by simp
  next
    case (Cons t ts)
    show ?thesis
    proof (cases "t = s")
      case True
      with Cons fs' n IH [of ts] show ?thesis
        by (simp add: file_at_Dir_Cons update_conv')
    next
      case False
      with Cons fs' show ?thesis by (simp add: file_at_Dir_Cons update_conv')
    qed
  qed
qed

lemma file_at_rm:
  "rm p fs = Inr fs' \<Longrightarrow> \<not> prefix p q \<Longrightarrow> file_at fs' q = file_at fs q"
proof (induction p fs arbitrary: fs' q rule: rm.induct)
  case (1 n)
  then show ?case by simp
next
  case (2 s ss c)
  then show ?case by simp
next
  case (3 s es)
  then have fs': "fs' = Dir (AList.delete s es)" by simp
  show ?case
  proof (cases q)
    case Nil
    with fs' show ?thesis by simp
  next
    case (Cons t ts)
    with "3.prems"(2) have "t \<noteq> s" by simp
    with Cons fs' show ?thesis by (simp add: file_at_Dir_Cons delete_conv')
  qed
next
  case (4 s v va es)
  show ?case
  proof (cases "map_of es s")
    case None
    with "4.prems" show ?thesis by simp
  next
    case (Some n)
    with "4.prems" obtain n' where n': "rm (v # va) n = Inr n'"
      and fs': "fs' = Dir (AList.update s n' es)"
      by (auto split: sum.splits)
    show ?thesis
    proof (cases q)
      case Nil
      with fs' show ?thesis by simp
    next
      case (Cons t ts)
      show ?thesis
      proof (cases "t = s")
        case True
        with Cons "4.prems"(2) have "\<not> prefix (v # va) ts" by simp
        from "4.IH" [OF Some n' this] True Cons fs' Some show ?thesis
          by (simp add: file_at_Dir_Cons update_conv')
      next
        case False
        with Cons fs' show ?thesis by (simp add: file_at_Dir_Cons update_conv')
      qed
    qed
  qed
qed

section \<open>Facts about \<open>path.join\<close> and \<open>path.dirname\<close> under the workspace root\<close>

lemma js_join_split: "js_join [sep] (js_split sep s) = s"
proof (induction s)
  case Nil
  show ?case by simp
next
  case (Cons c cs)
  obtain w ws where w: "js_split sep cs = w # ws" by (cases "js_split sep cs") simp_all
  show ?case
  proof (cases "c = sep")
    case True
    with Cons w show ?thesis by simp
  next
    case False
    with Cons w show ?thesis by (cases ws) auto
  qed
qed

lemma js_split_inj:
  assumes "js_split sep p = js_split sep p'"
  shows "p = p'"
proof -
  have "js_join [sep] (js_split sep p) = js_join [sep] (js_split sep p')"
    using assms by simp
  then show ?thesis by (simp only: js_join_split)
qed

lemma js_split_pieces: "w \<in> set (js_split sep s) \<Longrightarrow> sep \<notin> set w"
proof (induction s arbitrary: w)
  case Nil
  then show ?case by simp
next
  case (Cons c cs)
  obtain v vs where v: "js_split sep cs = v # vs" by (cases "js_split sep cs") simp_all
  with Cons show ?case by (cases "c = sep") auto
qed

lemma js_split_last_sep: "s \<noteq> [] \<Longrightarrow> last s = sep \<Longrightarrow> last (js_split sep s) = []"
proof -
  assume "s \<noteq> []" "last s = sep"
  then obtain xs where "s = xs @ [sep]" by (metis append_butlast_last_id)
  then have "js_split sep s = js_split sep xs @ [[]]"
    using js_split_append_sep [of sep xs "[]"] by simp
  then show ?thesis by simp
qed

lemma proper_path_facts:
  assumes "proper_path p"
  shows "dotdot_free p" and "p \<noteq> []" and "last p \<noteq> CHR ''/''"
    and "\<forall>s \<in> set (js_split (CHR ''/'') p). valid_name s"
    and "filter (\<lambda>s. s \<noteq> [] \<and> s \<noteq> ''.'') (js_split (CHR ''/'') p) = js_split (CHR ''/'') p"
proof -
  from assms show v: "\<forall>s \<in> set (js_split (CHR ''/'') p). valid_name s"
    by (simp add: proper_path_def list_all_iff)
  have nv: "\<not> valid_name ''..''" "\<not> valid_name []" by (simp_all add: valid_name_def)
  from v nv(1) show "dotdot_free p" unfolding dotdot_free_def by blast
  show ne: "p \<noteq> []"
  proof
    assume "p = []"
    then have "[] \<in> set (js_split (CHR ''/'') p)" by simp
    with v nv(2) show False by blast
  qed
  show "last p \<noteq> CHR ''/''"
  proof
    assume "last p = CHR ''/''"
    with ne have "last (js_split (CHR ''/'') p) = []" by (rule js_split_last_sep)
    moreover have "last (js_split (CHR ''/'') p) \<in> set (js_split (CHR ''/'') p)" by simp
    ultimately have "[] \<in> set (js_split (CHR ''/'') p)" by simp
    with v nv(2) show False by blast
  qed
  from v show "filter (\<lambda>s. s \<noteq> [] \<and> s \<noteq> ''.'') (js_split (CHR ''/'') p) = js_split (CHR ''/'') p"
    by (rule valid_name_filter)
qed

lemma dotdot_free_pieces:
  assumes "dotdot_free p"
  shows "\<forall>s \<in> set (filter (\<lambda>s. s \<noteq> [] \<and> s \<noteq> ''.'') (js_split (CHR ''/'') p)). valid_name s"
proof
  fix s
  assume "s \<in> set (filter (\<lambda>s. s \<noteq> [] \<and> s \<noteq> ''.'') (js_split (CHR ''/'') p))"
  then have m: "s \<in> set (js_split (CHR ''/'') p)" and a: "s \<noteq> []" "s \<noteq> ''.''" by simp_all
  from m have "CHR ''/'' \<notin> set s" by (rule js_split_pieces)
  moreover from m assms have "s \<noteq> ''..''" unfolding dotdot_free_def by blast
  ultimately show "valid_name s" using a unfolding valid_name_def by blast
qed

lemma path_normalize_abs:
  assumes v: "\<forall>s \<in> set xs. valid_name s" and ne: "xs \<noteq> []"
    and sp: "normalizeString False [] (js_split (CHR ''/'') j) = xs"
    and hd: "j \<noteq> []" "hd j = CHR ''/''"
  shows "path_normalize j = abs_path xs @ (if last j = CHR ''/'' then ''/'' else [])"
proof -
  have "js_join ''/'' xs \<noteq> []" using ne v by (intro js_join_nonempty) (auto simp: valid_name_def)
  then show ?thesis using hd sp by (simp add: path_normalize_def Let_def abs_path_def)
qed

lemma path_join_root:
  assumes rs: "\<forall>s \<in> set rs. valid_name s" and ne: "rs \<noteq> []" and dd: "dotdot_free p"
  shows "path_join (abs_path rs) p
           = abs_path (rs @ filter (\<lambda>s. s \<noteq> [] \<and> s \<noteq> ''.'') (js_split (CHR ''/'') p))
             @ (if p \<noteq> [] \<and> last p = CHR ''/'' then ''/'' else [])"
proof -
  let ?t = "filter (\<lambda>s. s \<noteq> [] \<and> s \<noteq> ''.'') (js_split (CHR ''/'') p)"
  have vt: "\<forall>s \<in> set ?t. valid_name s" using dd by (rule dotdot_free_pieces)
  have a0: "abs_path rs \<noteq> []" "hd (abs_path rs) = CHR ''/''" by (simp_all add: abs_path_def)
  show ?thesis
  proof (cases "p = []")
    case True
    have "normalizeString False [] (js_split (CHR ''/'') (abs_path rs)) = rs"
      using fs_segments_abs_path [OF rs] by (simp add: fs_segments_def)
    from path_normalize_abs [OF rs ne this a0] last_abs_path [OF ne rs] True
    show ?thesis by (simp add: path_join_def abs_path_def)
  next
    case False
    let ?j = "abs_path rs @ ''/'' @ p"
    have split: "js_split (CHR ''/'') ?j = ([] # rs) @ js_split (CHR ''/'') p"
      using js_split_append_sep [of "CHR ''/''" "abs_path rs" p] js_split_abs_path [OF rs] ne
      by simp
    have nodd: "''..'' \<notin> set (([] # rs) @ js_split (CHR ''/'') p)"
      using rs dd by (auto simp: dotdot_free_def valid_name_def)
    have norm: "normalizeString False [] (js_split (CHR ''/'') ?j) = rs @ ?t"
      unfolding split normalizeString_no_dotdot [OF nodd]
      using valid_name_filter [OF rs] by simp
    have v: "\<forall>s \<in> set (rs @ ?t). valid_name s" using rs vt by auto
    have "path_join (abs_path rs) p = path_normalize ?j"
      using False a0 by (simp add: path_join_def)
    also have "\<dots> = abs_path (rs @ ?t) @ (if last ?j = CHR ''/'' then ''/'' else [])"
      using v ne norm by (intro path_normalize_abs) (simp_all add: abs_path_def)
    finally show ?thesis using False by simp
  qed
qed

lemma fs_segments_abs_path_slash:
  assumes "\<forall>s \<in> set xs. valid_name s" "xs \<noteq> []"
  shows "fs_segments (abs_path xs @ ''/'') = xs"
proof -
  have "js_split (CHR ''/'') (abs_path xs @ ''/'') = ([] # xs) @ [[]]"
    using js_split_append_sep [of "CHR ''/''" "abs_path xs" "[]"] js_split_abs_path [OF assms(1)]
      assms(2) by simp
  moreover have "''..'' \<notin> set (([] # xs) @ [[]])" using assms(1) by (auto simp: valid_name_def)
  ultimately show ?thesis
    using valid_name_filter [OF assms(1)] by (simp add: fs_segments_def normalizeString_no_dotdot)
qed

lemma abs_path_Cons: "abs_path xs = CHR ''/'' # js_join ''/'' xs"
  by (simp add: abs_path_def)

lemma path_dirname_root:
  "path_dirname (CHR ''/'' # j) =
     (if dropWhile (\<lambda>c. c \<noteq> CHR ''/'') (dropWhile (\<lambda>c. c = CHR ''/'') (rev j)) = []
      then ''/''
      else if length (dropWhile (\<lambda>c. c \<noteq> CHR ''/'')
                       (dropWhile (\<lambda>c. c = CHR ''/'') (rev j))) = 1
      then ''//''
      else take (length (dropWhile (\<lambda>c. c \<noteq> CHR ''/'')
                           (dropWhile (\<lambda>c. c = CHR ''/'') (rev j)))) (CHR ''/'' # j))"
  by (simp only: path_dirname_def Let_def list.sel list.distinct if_False if_True simp_thms)

lemma path_dirname_abs_path:
  assumes v: "\<forall>s \<in> set xs. valid_name s" and ne: "xs \<noteq> []"
  shows "path_dirname (abs_path xs) = abs_path (butlast xs)"
    and "path_dirname (abs_path xs @ ''/'') = abs_path (butlast xs)"
proof -
  let ?x = "last xs" and ?ys = "butlast xs"
  let ?j = "js_join ''/'' xs"
  have xs: "xs = ?ys @ [?x]" using ne by simp
  have x: "?x \<noteq> []" "CHR ''/'' \<notin> set ?x" using v ne by (auto simp: valid_name_def)
  have vy: "\<forall>s \<in> set ?ys. valid_name s" using v by (auto dest: in_set_butlastD)
  define rest where "rest = (if ?ys = [] then [] else CHR ''/'' # rev (js_join ''/'' ?ys))"
  have j: "rev ?j = rev ?x @ rest"
  proof (cases "?ys = []")
    case True
    with xs have "xs = [?x]" by simp
    then have "?j = ?x" by (metis js_join.simps(2))
    with True show ?thesis by (simp add: rest_def)
  next
    case False
    from js_join_snoc [OF False, of "''/''" ?x] xs
    have "?j = js_join ''/'' ?ys @ ''/'' @ ?x" by simp
    with False show ?thesis by (simp add: rest_def)
  qed
  have d1: "dropWhile (\<lambda>c. c = CHR ''/'') (rev ?x @ rest) = rev ?x @ rest"
    using x by (cases "rev ?x") (auto simp: hd_rev)
  have d2: "dropWhile (\<lambda>c. c \<noteq> CHR ''/'') (rev ?x @ rest) = rest"
  proof -
    have "dropWhile (\<lambda>c. c \<noteq> CHR ''/'') (rev ?x @ rest) = dropWhile (\<lambda>c. c \<noteq> CHR ''/'') rest"
      by (rule dropWhile_append2) (use x in auto)
    then show ?thesis by (simp add: rest_def)
  qed
  have d: "dropWhile (\<lambda>c. c \<noteq> CHR ''/'') (dropWhile (\<lambda>c. c = CHR ''/'') (rev ?j)) = rest"
    by (simp only: j d1 d2)
  have "rev (?j @ ''/'') = CHR ''/'' # rev ?x @ rest" using j by simp
  then have d': "dropWhile (\<lambda>c. c \<noteq> CHR ''/'')
                   (dropWhile (\<lambda>c. c = CHR ''/'') (rev (?j @ ''/''))) = rest"
    using d1 d2 by simp
  have len: "length ?j = length ?x + length rest"
    using arg_cong [OF j, of length] by simp
  have r: "(if rest = [] then ''/'' else if length rest = 1 then ''//''
            else take (length rest) (CHR ''/'' # ?j)) = CHR ''/'' # js_join ''/'' ?ys"
  proof (cases "?ys = []")
    case True
    then show ?thesis by (simp add: rest_def)
  next
    case False
    have jn: "js_join ''/'' ?ys \<noteq> []"
      using False vy by (intro js_join_nonempty) (auto simp: valid_name_def)
    from js_join_snoc [OF False, of "''/''" ?x] xs
    have "?j = js_join ''/'' ?ys @ ''/'' @ ?x" by simp
    then have "take (length rest) (CHR ''/'' # ?j) = CHR ''/'' # js_join ''/'' ?ys"
      using False by (simp add: rest_def)
    with False jn show ?thesis by (simp add: rest_def)
  qed
  have "path_dirname (CHR ''/'' # ?j) = CHR ''/'' # js_join ''/'' ?ys"
    unfolding path_dirname_root d by (rule r)
  then show "path_dirname (abs_path xs) = abs_path ?ys" by (simp only: abs_path_Cons)
  have t: "take (length rest) (CHR ''/'' # ?j @ ''/'') = take (length rest) (CHR ''/'' # ?j)"
    using len by (cases "length rest") auto
  have "path_dirname (CHR ''/'' # (?j @ ''/''))
          = (if rest = [] then ''/'' else if length rest = 1 then ''//''
             else take (length rest) (CHR ''/'' # ?j @ ''/''))"
    unfolding path_dirname_root d' by (rule refl)
  also have "\<dots> = CHR ''/'' # js_join ''/'' ?ys"
    unfolding t by (rule r)
  finally have "path_dirname (CHR ''/'' # (?j @ ''/'')) = CHR ''/'' # js_join ''/'' ?ys" .
  then show "path_dirname (abs_path xs @ ''/'') = abs_path ?ys" by (simp add: abs_path_Cons)
qed

section \<open>Facts about workspace preparation\<close>

lemma populate_step:
  assumes rs: "\<forall>s \<in> set rs. valid_name s" and ne: "rs \<noteq> []" and dd: "dotdot_free p"
  defines "t \<equiv> filter (\<lambda>s. s \<noteq> [] \<and> s \<noteq> ''.'') (js_split (CHR ''/'') p)"
  shows "fs_mkdir (path_dirname (path_join (abs_path rs) p)) fs = mkdirp (butlast (rs @ t)) fs"
    and "p \<noteq> [] \<and> last p = CHR ''/'' \<Longrightarrow>
           \<exists>e. fs_writeFile (path_join (abs_path rs) p) data fs = Inl e"
    and "\<not> (p \<noteq> [] \<and> last p = CHR ''/'') \<Longrightarrow>
           fs_writeFile (path_join (abs_path rs) p) data fs = writeFile (rs @ t) data fs"
proof -
  have vt: "\<forall>s \<in> set t. valid_name s" unfolding t_def using dd by (rule dotdot_free_pieces)
  have v: "\<forall>s \<in> set (rs @ t). valid_name s" using rs vt by auto
  have n: "rs @ t \<noteq> []" using ne by simp
  have vb: "\<forall>s \<in> set (butlast (rs @ t)). valid_name s" using v by (auto dest: in_set_butlastD)
  have pj: "path_join (abs_path rs) p
              = abs_path (rs @ t) @ (if p \<noteq> [] \<and> last p = CHR ''/'' then ''/'' else [])"
    unfolding t_def using rs ne dd by (rule path_join_root)
  have dn: "path_dirname (path_join (abs_path rs) p) = abs_path (butlast (rs @ t))"
    using path_dirname_abs_path [OF v n] by (simp add: pj)
  show "fs_mkdir (path_dirname (path_join (abs_path rs) p)) fs = mkdirp (butlast (rs @ t)) fs"
    by (simp add: fs_mkdir_def dn fs_segments_abs_path [OF vb])
  show "\<exists>e. fs_writeFile (path_join (abs_path rs) p) data fs = Inl e"
    if "p \<noteq> [] \<and> last p = CHR ''/''"
    using that by (simp add: pj fs_writeFile_def split: option.splits node.splits)
  show "fs_writeFile (path_join (abs_path rs) p) data fs = writeFile (rs @ t) data fs"
    if "\<not> (p \<noteq> [] \<and> last p = CHR ''/'')"
  proof -
    from that have "path_join (abs_path rs) p = abs_path (rs @ t)" by (simp add: pj)
    moreover have "abs_path (rs @ t) \<noteq> []" by (simp add: abs_path_def)
    ultimately show ?thesis
      using last_abs_path [OF n v] fs_segments_abs_path [OF v] by (simp add: fs_writeFile_def)
  qed
qed

lemma populate_outside:
  assumes rs: "\<forall>s \<in> set rs. valid_name s" and ne: "rs \<noteq> []"
    and q: "\<not> prefix rs q"
  shows "\<forall>f \<in> set fileList. dotdot_free (filePath f) \<Longrightarrow>
         populate (abs_path rs) fileList (orig, fs) = (err, snap, fs') \<Longrightarrow>
         file_at fs' q = file_at fs q"
proof (induction fileList arbitrary: orig fs)
  case Nil
  then show ?case by simp
next
  case (Cons f rest)
  let ?p = "filePath f"
  let ?t = "filter (\<lambda>s. s \<noteq> [] \<and> s \<noteq> ''.'') (js_split (CHR ''/'') ?p)"
  from Cons.prems(1) have dd: "dotdot_free ?p" and ddr: "\<forall>f \<in> set rest. dotdot_free (filePath f)"
    by simp_all
  note st = populate_step [OF rs ne dd]
  show ?case
  proof (cases "mkdirp (butlast (rs @ ?t)) fs")
    case (Inl e)
    with Cons.prems(2) show ?thesis by (simp add: Let_def st(1))
  next
    case (Inr fs1)
    have m: "file_at fs1 q = file_at fs q" using Inr by (rule file_at_mkdirp)
    show ?thesis
    proof (cases "fs_writeFile (path_join (abs_path rs) ?p) (content f) fs1")
      case (Inl e)
      with Cons.prems(2) Inr m show ?thesis by (simp add: Let_def st(1))
    next
      case fs2: (Inr fs2)
      have nt: "\<not> (?p \<noteq> [] \<and> last ?p = CHR ''/'')"
        using st(2) [of "content f" fs1] fs2 by auto
      from st(3) [OF nt, of "content f" fs1] fs2
      have "writeFile (rs @ ?t) (content f) fs1 = Inr fs2" by simp
      from file_at_writeFile [OF this, of q] q have w: "file_at fs2 q = file_at fs1 q"
        by auto
      from Cons.prems(2) Inr fs2
      have "populate (abs_path rs) rest
              (orig(replace_backslashes ?p \<mapsto> content f), fs2) = (err, snap, fs')"
        by (simp add: Let_def st(1))
      from Cons.IH [OF ddr this] w m show ?thesis by simp
    qed
  qed
qed

lemma populate_readback:
  assumes rs: "\<forall>s \<in> set rs. valid_name s" and ne: "rs \<noteq> []"
  shows "\<forall>f \<in> set fileList. proper_path (filePath f) \<Longrightarrow>
         distinct (map filePath fileList) \<Longrightarrow>
         populate (abs_path rs) fileList (orig, fs) = (None, snap, fs') \<Longrightarrow>
         (\<forall>f \<in> set fileList.
            file_at fs' (rs @ js_split (CHR ''/'') (filePath f)) = Some (content f))
         \<and> (\<forall>q. q \<notin> (\<lambda>f. rs @ js_split (CHR ''/'') (filePath f)) ` set fileList
               \<longrightarrow> file_at fs' q = file_at fs q)"
proof (induction fileList arbitrary: orig fs)
  case Nil
  then show ?case by simp
next
  case (Cons f rest)
  let ?p = "filePath f"
  let ?t = "js_split (CHR ''/'') ?p"
  from Cons.prems(1) have pp: "proper_path ?p"
    and ppr: "\<forall>f \<in> set rest. proper_path (filePath f)" by simp_all
  note pf = proper_path_facts [OF pp]
  note st = populate_step [OF rs ne pf(1), unfolded pf(5)]
  from Cons.prems(2) have dr: "distinct (map filePath rest)"
    and fresh: "?p \<notin> filePath ` set rest" by simp_all
  have nt: "\<not> (?p \<noteq> [] \<and> last ?p = CHR ''/'')" using pf(3) by simp
  from Cons.prems(3) obtain fs1 fs2 where
    m: "mkdirp (butlast (rs @ ?t)) fs = Inr fs1"
    and w: "writeFile (rs @ ?t) (content f) fs1 = Inr fs2"
    and r: "populate (abs_path rs) rest
              (orig(replace_backslashes ?p \<mapsto> content f), fs2) = (None, snap, fs')"
    by (auto simp: Let_def st(1) st(3) [OF nt] split: sum.splits)
  from Cons.IH [OF ppr dr r]
  have a: "\<forall>f \<in> set rest. file_at fs' (rs @ js_split (CHR ''/'') (filePath f)) = Some (content f)"
    and b: "\<And>q. q \<notin> (\<lambda>f. rs @ js_split (CHR ''/'') (filePath f)) ` set rest
               \<Longrightarrow> file_at fs' q = file_at fs2 q" by simp_all
  have notin: "rs @ ?t \<notin> (\<lambda>f. rs @ js_split (CHR ''/'') (filePath f)) ` set rest"
  proof
    assume "rs @ ?t \<in> (\<lambda>f. rs @ js_split (CHR ''/'') (filePath f)) ` set rest"
    then obtain g where g: "g \<in> set rest" and "?t = js_split (CHR ''/'') (filePath g)" by auto
    then have "?p = filePath g" by (intro js_split_inj)
    with g fresh show False by auto
  qed
  have own: "file_at fs' (rs @ ?t) = Some (content f)"
    using b [OF notin] file_at_writeFile [OF w, of "rs @ ?t"] by simp
  have others: "file_at fs' q = file_at fs q"
    if "q \<notin> (\<lambda>f. rs @ js_split (CHR ''/'') (filePath f)) ` set (f # rest)" for q
  proof -
    from that have q1: "q \<noteq> rs @ ?t"
      and q2: "q \<notin> (\<lambda>f. rs @ js_split (CHR ''/'') (filePath f)) ` set rest" by auto
    from b [OF q2] file_at_writeFile [OF w, of q] q1 file_at_mkdirp [OF m, of q]
    show ?thesis by simp
  qed
  from own a others show ?case by simp
qed

lemma prepare_root:
  assumes ds: "\<forall>s \<in> set ds. valid_name s"
  shows "path_join (abs_path ds) ''USER_FILES'' = abs_path (ds @ [''USER_FILES''])"
    and "\<forall>s \<in> set (ds @ [''USER_FILES'']). valid_name s"
    and "fs_rm (abs_path (ds @ [''USER_FILES''])) fs = rm (ds @ [''USER_FILES'']) fs"
    and "fs_mkdir (abs_path (ds @ [''USER_FILES''])) fs = mkdirp (ds @ [''USER_FILES'']) fs"
proof -
  show "path_join (abs_path ds) ''USER_FILES'' = abs_path (ds @ [''USER_FILES''])"
    using ds valid_USER_FILES by (rule path_join_abs_path)
  show v: "\<forall>s \<in> set (ds @ [''USER_FILES'']). valid_name s" using ds valid_USER_FILES by simp
  show "fs_rm (abs_path (ds @ [''USER_FILES''])) fs = rm (ds @ [''USER_FILES'']) fs"
    by (simp only: fs_rm_def fs_segments_abs_path [OF v])
  show "fs_mkdir (abs_path (ds @ [''USER_FILES''])) fs = mkdirp (ds @ [''USER_FILES'']) fs"
    by (simp only: fs_mkdir_def fs_segments_abs_path [OF v])
qed


lemma prepare_outside:
  assumes ds: "\<forall>s \<in> set ds. valid_name s"
    and dd: "\<forall>f \<in> set fileList. dotdot_free (filePath f)"
    and q: "\<not> prefix (ds @ [''USER_FILES'']) q"
  shows "file_at (snd (snd (prepare (abs_path ds) fileList fs))) q = file_at fs q"
proof -
  let ?rs = "ds @ [''USER_FILES'']"
  note pr = prepare_root [OF ds]
  have ne: "?rs \<noteq> []" by simp
  show ?thesis
  proof (cases "rm ?rs fs")
    case (Inl e)
    then show ?thesis by (simp add: prepare_def pr Let_def)
  next
    case (Inr fs1)
    have 1: "file_at fs1 q = file_at fs q" using Inr q by (rule file_at_rm)
    show ?thesis
    proof (cases "mkdirp ?rs fs1")
      case (Inl e)
      with Inr 1 show ?thesis by (simp add: prepare_def pr Let_def)
    next
      case fs2: (Inr fs2)
      have 2: "file_at fs2 q = file_at fs1 q" using fs2 by (rule file_at_mkdirp)
      obtain err snap fs' where p: "populate (abs_path ?rs) fileList (Map.empty, fs2) = (err, snap, fs')"
        by (cases "populate (abs_path ?rs) fileList (Map.empty, fs2)") auto
      from populate_outside [OF pr(2) ne q dd p] 1 2 Inr fs2 p show ?thesis
        by (simp add: prepare_def pr Let_def)
    qed
  qed
qed


lemma prepare_readback:
  assumes ds: "\<forall>s \<in> set ds. valid_name s"
    and pp: "\<forall>f \<in> set fileList. proper_path (filePath f)"
    and di: "distinct (map filePath fileList)"
    and ok: "prepare (abs_path ds) fileList fs = (None, snapshot, fs')"
    and f: "f \<in> set fileList"
  shows "fs_readFile (path_join (path_join (abs_path ds) ''USER_FILES'') (filePath f)) fs'
           = Inr (content f)"
proof -
  let ?rs = "ds @ [''USER_FILES'']"
  note pr = prepare_root [OF ds]
  have ne: "?rs \<noteq> []" by simp
  from ok obtain fs2 where
    "populate (abs_path ?rs) fileList (Map.empty, fs2) = (None, snapshot, fs')"
    by (auto simp: prepare_def pr Let_def split: sum.splits)
  from populate_readback [OF pr(2) ne pp di this] f
  have fa: "file_at fs' (?rs @ js_split (CHR ''/'') (filePath f)) = Some (content f)" by simp
  from pp f have p: "proper_path (filePath f)" by simp
  note pf = proper_path_facts [OF p]
  let ?t = "js_split (CHR ''/'') (filePath f)"
  have v: "\<forall>s \<in> set (?rs @ ?t). valid_name s" using pr(2) pf(4) by auto
  have pj: "path_join (abs_path ?rs) (filePath f) = abs_path (?rs @ ?t)"
    using path_join_root [OF pr(2) ne pf(1)] pf(3) by (simp add: pf(5))
  have "lookup fs' (?rs @ ?t) = Some (File (content f))"
    using fa by (simp only: file_at_Some_iff)
  then have "fs_readFile (abs_path (?rs @ ?t)) fs' = Inr (content f)"
    using v by (intro fs_readFile_abs_path) simp_all
  then show ?thesis by (simp add: pr(1) pj)
qed

section \<open>Facts about directories on the disk\<close>

lemma dir_at_Nil [simp]: "dir_at n [] = (case n of File c \<Rightarrow> False | Dir es \<Rightarrow> True)"
  by (simp add: dir_at_def split: node.splits)

lemma dir_at_File_Cons [simp]: "dir_at (File c) (s # ss) = False"
  by (simp add: dir_at_def)

lemma dir_at_Dir_Cons:
  "dir_at (Dir es) (s # ss) = (case map_of es s of None \<Rightarrow> False | Some n \<Rightarrow> dir_at n ss)"
  by (simp add: dir_at_def split: option.splits)

lemma dir_at_empty: "dir_at (Dir []) q = (q = [])"
  by (cases q) (simp_all add: dir_at_Dir_Cons)

lemma file_at_empty: "file_at (Dir []) q = None"
  by (cases q) (simp_all add: file_at_Dir_Cons)

lemma dir_at_file_at: "dir_at n q \<Longrightarrow> file_at n q = None"
  by (auto simp: dir_at_def file_at_def split: option.splits node.splits)

lemma dir_at_prefix: "dir_at n (a @ b) \<Longrightarrow> dir_at n a"
proof (induction a arbitrary: n)
  case Nil
  then show ?case by (cases n; cases b) simp_all
next
  case (Cons s a)
  then show ?case
    by (cases n) (auto simp: dir_at_Dir_Cons split: option.splits)
qed

lemma mkdirp_succeeds:
  "(\<forall>q. prefix q p \<longrightarrow> file_at fs q = None) \<Longrightarrow> \<exists>fs'. mkdirp p fs = Inr fs'"
proof (induction p fs rule: mkdirp.induct)
  case (1 es)
  show ?case by simp
next
  case (2 c)
  have "prefix [] ([] :: string list)" by simp
  with 2 have "file_at (File c) [] = None" by blast
  then show ?case by simp
next
  case (3 s ss c)
  have "prefix [] (s # ss)" by simp
  with 3 have "file_at (File c) [] = None" by blast
  then show ?case by simp
next
  case (4 s ss es)
  let ?n = "case map_of es s of None \<Rightarrow> Dir [] | Some n \<Rightarrow> n"
  have "\<forall>q. prefix q ss \<longrightarrow> file_at ?n q = None"
  proof (intro allI impI)
    fix q assume "prefix q ss"
    then have "prefix (s # q) (s # ss)" by simp
    with "4.prems" have "file_at (Dir es) (s # q) = None" by blast
    then show "file_at ?n q = None"
      by (cases "map_of es s") (simp_all add: file_at_Dir_Cons file_at_empty)
  qed
  from "4.IH" [OF this] obtain n' where "mkdirp ss ?n = Inr n'" by blast
  then show ?case by simp
qed

lemma dir_at_mkdirp:
  "mkdirp p fs = Inr fs' \<Longrightarrow> dir_at fs' q = (prefix q p \<or> dir_at fs q)"
proof (induction p fs arbitrary: fs' q rule: mkdirp.induct)
  case (1 es)
  then show ?case by (cases q) auto
next
  case (2 c)
  then show ?case by simp
next
  case (3 s ss c)
  then show ?case by simp
next
  case (4 s ss es)
  let ?n = "case map_of es s of None \<Rightarrow> Dir [] | Some n \<Rightarrow> n"
  from "4.prems" obtain n' where n': "mkdirp ss ?n = Inr n'"
    and fs': "fs' = Dir (AList.update s n' es)"
    by (auto split: sum.splits)
  have IH: "dir_at n' r = (prefix r ss \<or> dir_at ?n r)" for r using "4.IH" [OF n'] .
  show ?case
  proof (cases q)
    case Nil
    with fs' show ?thesis by simp
  next
    case (Cons t ts)
    show ?thesis
    proof (cases "t = s")
      case True
      show ?thesis
      proof (cases "map_of es s")
        case None
        with True Cons fs' IH [of ts] show ?thesis
          by (auto simp: dir_at_Dir_Cons update_conv' dir_at_empty)
      next
        case (Some n)
        with True Cons fs' IH [of ts] show ?thesis
          by (simp add: dir_at_Dir_Cons update_conv')
      qed
    next
      case False
      with Cons fs' show ?thesis by (simp add: dir_at_Dir_Cons update_conv')
    qed
  qed
qed

lemma dir_at_not_Dir: "\<forall>sub. n \<noteq> Dir sub \<Longrightarrow> dir_at n q = False"
  by (cases n; cases q) simp_all

lemma dir_at_writeFile:
  "writeFile p data fs = Inr fs' \<Longrightarrow> dir_at fs' q = dir_at fs q"
proof (induction p data fs arbitrary: fs' q rule: writeFile.induct)
  case (1 data n)
  then show ?case by simp
next
  case (2 s ss data c)
  then show ?case by simp
next
  case (3 s data es)
  then have nd: "\<forall>sub. map_of es s \<noteq> Some (Dir sub)"
    and fs': "fs' = Dir (AList.update s (File data) es)"
    by (auto split: option.splits node.splits)
  show ?case
  proof (cases q)
    case Nil
    with fs' show ?thesis by simp
  next
    case (Cons t ts)
    show ?thesis
    proof (cases "t = s")
      case True
      with Cons fs' nd show ?thesis
        by (cases ts; cases "map_of es s")
           (auto simp: dir_at_Dir_Cons update_conv' dir_at_not_Dir split: node.splits)
    next
      case False
      with Cons fs' show ?thesis by (simp add: dir_at_Dir_Cons update_conv')
    qed
  qed
next
  case (4 s v va data es)
  from "4.prems" obtain n n' where n: "map_of es s = Some n"
    and n': "writeFile (v # va) data n = Inr n'"
    and fs': "fs' = Dir (AList.update s n' es)"
    by (auto split: option.splits sum.splits)
  have IH: "dir_at n' r = dir_at n r" for r using "4.IH" [OF n n'] .
  show ?case
  proof (cases q)
    case Nil
    with fs' show ?thesis by simp
  next
    case (Cons t ts)
    show ?thesis
    proof (cases "t = s")
      case True
      with Cons fs' n IH [of ts] show ?thesis by (simp add: dir_at_Dir_Cons update_conv')
    next
      case False
      with Cons fs' show ?thesis by (simp add: dir_at_Dir_Cons update_conv')
    qed
  qed
qed

lemma writeFile_succeeds:
  "p \<noteq> [] \<Longrightarrow> dir_at fs (butlast p) \<Longrightarrow> \<not> dir_at fs p \<Longrightarrow>
   \<exists>fs'. writeFile p data fs = Inr fs'"
proof (induction p data fs rule: writeFile.induct)
  case (1 data n)
  then show ?case by simp
next
  case (2 s ss data c)
  then show ?case by (cases ss) simp_all
next
  case (3 s data es)
  then show ?case
    by (auto simp: dir_at_Dir_Cons split: option.splits node.splits)
next
  case (4 s v va data es)
  from "4.prems"(2) obtain n where n: "map_of es s = Some n"
    and d: "dir_at n (butlast (v # va))"
    by (auto simp: dir_at_Dir_Cons split: option.splits)
  from "4.prems"(3) n have nd: "\<not> dir_at n (v # va)" by (simp add: dir_at_Dir_Cons)
  from "4.IH" [OF n _ d nd] obtain n' where "writeFile (v # va) data n = Inr n'" by auto
  with n show ?case by simp
qed

section \<open>Facts about the completion of workspace preparation\<close>

lemma lookup_append_None: "lookup fs a = None \<Longrightarrow> lookup fs (a @ b) = None"
proof (induction fs a rule: lookup.induct)
  case (1 n)
  then show ?case by simp
next
  case (2 c s ss)
  then show ?case by simp
next
  case (3 es s ss)
  then show ?case by (auto split: option.splits)
qed

lemma rm_under_dir:
  "dir_at fs ds \<Longrightarrow>
   \<exists>fs'. rm (ds @ [x]) fs = Inr fs' \<and> dir_at fs' ds \<and> lookup fs' (ds @ [x]) = None"
proof (induction ds arbitrary: fs)
  case Nil
  then obtain es where "fs = Dir es" by (cases fs) simp_all
  then show ?case by (simp add: delete_conv')
next
  case (Cons s ds)
  from Cons.prems obtain es n where fs: "fs = Dir es" and n: "map_of es s = Some n"
    and d: "dir_at n ds"
    by (cases fs) (auto simp: dir_at_Dir_Cons split: option.splits)
  from Cons.IH [OF d] obtain n' where r: "rm (ds @ [x]) n = Inr n'" and d': "dir_at n' ds"
    and l: "lookup n' (ds @ [x]) = None" by blast
  obtain v va where vv: "ds @ [x] = v # va" by (cases "ds @ [x]") simp_all
  have "rm ((s # ds) @ [x]) fs = Inr (Dir (AList.update s n' es))"
    using fs n r vv by simp
  moreover have "dir_at (Dir (AList.update s n' es)) (s # ds)"
    using d' by (simp add: dir_at_Dir_Cons update_conv')
  moreover have "lookup (Dir (AList.update s n' es)) ((s # ds) @ [x]) = None"
    using l by (simp add: update_conv')
  ultimately show ?case by simp
qed

lemma fresh_root:
  assumes "dir_at fs ds"
  shows "\<exists>fs1 fs2. rm (ds @ [x]) fs = Inr fs1 \<and> mkdirp (ds @ [x]) fs1 = Inr fs2
           \<and> dir_at fs2 (ds @ [x])
           \<and> (\<forall>t. file_at fs2 ((ds @ [x]) @ t) = None)
           \<and> (\<forall>t. t \<noteq> [] \<longrightarrow> \<not> dir_at fs2 ((ds @ [x]) @ t))"
proof -
  from rm_under_dir [OF assms, of x] obtain fs1 where r: "rm (ds @ [x]) fs = Inr fs1"
    and d: "dir_at fs1 ds" and l: "lookup fs1 (ds @ [x]) = None" by blast
  have gone: "lookup fs1 ((ds @ [x]) @ t) = None" for t using l by (rule lookup_append_None)
  have "\<forall>q. prefix q (ds @ [x]) \<longrightarrow> file_at fs1 q = None"
  proof (intro allI impI)
    fix q assume "prefix q (ds @ [x])"
    then consider "prefix q ds" | "q = ds @ [x]" by (auto simp: prefix_snoc)
    then show "file_at fs1 q = None"
    proof cases
      case 1
      then obtain b where "ds = q @ b" by (auto simp: prefix_def)
      with d have "dir_at fs1 q" by (auto intro: dir_at_prefix)
      then show ?thesis by (rule dir_at_file_at)
    next
      case 2
      with l show ?thesis by (simp add: file_at_def)
    qed
  qed
  from mkdirp_succeeds [OF this] obtain fs2 where m: "mkdirp (ds @ [x]) fs1 = Inr fs2" by blast
  have a: "dir_at fs2 (ds @ [x])" using dir_at_mkdirp [OF m, of "ds @ [x]"] by simp
  have b: "file_at fs2 ((ds @ [x]) @ t) = None" for t
    using file_at_mkdirp [OF m, of "(ds @ [x]) @ t"] gone [of t] by (simp add: file_at_def)
  have c: "\<not> dir_at fs2 ((ds @ [x]) @ t)" if "t \<noteq> []" for t
  proof -
    have "\<not> prefix ((ds @ [x]) @ t) (ds @ [x])" using that by (simp add: prefix_def)
    moreover have "\<not> dir_at fs1 ((ds @ [x]) @ t)" using gone [of t] by (simp add: dir_at_def)
    ultimately show ?thesis using dir_at_mkdirp [OF m, of "(ds @ [x]) @ t"] by simp
  qed
  from r m a b c show ?thesis by blast
qed

lemma populate_succeeds:
  assumes rs: "\<forall>s \<in> set rs. valid_name s" and ne: "rs \<noteq> []"
  shows "dir_at fs rs \<Longrightarrow>
         (\<forall>t. file_at fs (rs @ t) \<noteq> None \<longrightarrow> t \<in> D) \<Longrightarrow>
         (\<forall>t. t \<noteq> [] \<and> dir_at fs (rs @ t) \<longrightarrow> (\<exists>d \<in> D. strict_prefix t d)) \<Longrightarrow>
         \<forall>f \<in> set fileList. proper_path (filePath f) \<Longrightarrow>
         \<forall>f \<in> set fileList. \<forall>g \<in> set fileList.
            prefix (js_split (CHR ''/'') (filePath f)) (js_split (CHR ''/'') (filePath g))
            \<longrightarrow> f = g \<Longrightarrow>
         distinct fileList \<Longrightarrow>
         \<forall>f \<in> set fileList. \<forall>d \<in> D.
            \<not> prefix d (js_split (CHR ''/'') (filePath f))
            \<and> \<not> prefix (js_split (CHR ''/'') (filePath f)) d \<Longrightarrow>
         fst (populate (abs_path rs) fileList (orig, fs)) = None"
proof (induction fileList arbitrary: orig fs D)
  case Nil
  show ?case by simp
next
  case (Cons f rest)
  let ?p = "filePath f"
  let ?t = "js_split (CHR ''/'') ?p"
  note I1 = Cons.prems(1) and I2 = Cons.prems(2) and I3 = Cons.prems(3)
  from Cons.prems(4) have pp: "proper_path ?p"
    and ppr: "\<forall>f \<in> set rest. proper_path (filePath f)" by simp_all
  note pf = proper_path_facts [OF pp]
  note st = populate_step [OF rs ne pf(1), unfolded pf(5)]
  have nt: "\<not> (?p \<noteq> [] \<and> last ?p = CHR ''/'')" using pf(3) by simp
  have tne: "?t \<noteq> []" by simp
  have bl: "butlast (rs @ ?t) = rs @ butlast ?t" using tne by (simp add: butlast_append)
  from Cons.prems(7) have fD: "\<And>d. d \<in> D \<Longrightarrow> \<not> prefix d ?t \<and> \<not> prefix ?t d" by simp
  \<comment> \<open>the directories are created\<close>
  have "\<forall>q. prefix q (rs @ butlast ?t) \<longrightarrow> file_at fs q = None"
  proof (intro allI impI)
    fix q assume "prefix q (rs @ butlast ?t)"
    then consider "prefix q rs" | u where "q = rs @ u" "prefix u (butlast ?t)"
      by (auto simp: prefix_append)
    then show "file_at fs q = None"
    proof cases
      case 1
      then obtain b where "rs = q @ b" by (auto simp: prefix_def)
      with I1 have "dir_at fs q" by (auto intro: dir_at_prefix)
      then show ?thesis by (rule dir_at_file_at)
    next
      case 2
      show ?thesis
      proof (rule ccontr)
        assume "file_at fs q \<noteq> None"
        with 2 I2 have "u \<in> D" by blast
        moreover have "prefix u ?t" using 2(2) by (meson prefix_order.trans prefixeq_butlast)
        ultimately show False using fD by blast
      qed
    qed
  qed
  from mkdirp_succeeds [OF this] obtain fs1 where m: "mkdirp (rs @ butlast ?t) fs = Inr fs1"
    by blast
  note d1 = dir_at_mkdirp [OF m] and f1 = file_at_mkdirp [OF m]
  \<comment> \<open>the file is written\<close>
  have "\<not> dir_at fs1 (rs @ ?t)"
  proof
    assume "dir_at fs1 (rs @ ?t)"
    with d1 [of "rs @ ?t"] consider "prefix ?t (butlast ?t)" | "dir_at fs (rs @ ?t)" by auto
    then show False
    proof cases
      case 1
      then have "length ?t \<le> length (butlast ?t)" by (rule prefix_length_le)
      with tne show False by (cases ?t rule: rev_cases) simp_all
    next
      case 2
      with I3 tne obtain d where "d \<in> D" "strict_prefix ?t d" by blast
      with fD show False by (auto simp: strict_prefix_def)
    qed
  qed
  moreover have "dir_at fs1 (butlast (rs @ ?t))" using d1 [of "rs @ butlast ?t"] by (simp add: bl)
  ultimately obtain fs2 where w: "writeFile (rs @ ?t) (content f) fs1 = Inr fs2"
    using writeFile_succeeds [of "rs @ ?t" fs1 "content f"] ne by auto
  note d2 = dir_at_writeFile [OF w] and f2 = file_at_writeFile [OF w]
  \<comment> \<open>the rest of the list\<close>
  have J1: "dir_at fs2 rs" using d2 [of rs] d1 [of rs] by simp
  have J2: "\<forall>u. file_at fs2 (rs @ u) \<noteq> None \<longrightarrow> u \<in> insert ?t D"
    using f2 f1 I2 by auto
  have J3: "\<forall>u. u \<noteq> [] \<and> dir_at fs2 (rs @ u) \<longrightarrow> (\<exists>d \<in> insert ?t D. strict_prefix u d)"
  proof (intro allI impI)
    fix u assume u: "u \<noteq> [] \<and> dir_at fs2 (rs @ u)"
    with d2 [of "rs @ u"] d1 [of "rs @ u"]
    consider "prefix u (butlast ?t)" | "dir_at fs (rs @ u)" by auto
    then show "\<exists>d \<in> insert ?t D. strict_prefix u d"
    proof cases
      case 1
      then have "prefix u ?t" by (meson prefix_order.trans prefixeq_butlast)
      moreover have "u \<noteq> ?t"
      proof
        assume "u = ?t"
        with 1 have "prefix ?t (butlast ?t)" by simp
        then have "length ?t \<le> length (butlast ?t)" by (rule prefix_length_le)
        with tne show False by (cases ?t rule: rev_cases) simp_all
      qed
      ultimately show ?thesis by (auto simp: strict_prefix_def)
    next
      case 2
      with u I3 show ?thesis by blast
    qed
  qed
  from Cons.prems(5) have pfr: "\<forall>f \<in> set rest. \<forall>g \<in> set rest.
            prefix (js_split (CHR ''/'') (filePath f)) (js_split (CHR ''/'') (filePath g))
            \<longrightarrow> f = g" by simp
  from Cons.prems(6) have dr: "distinct rest" and fr: "f \<notin> set rest" by simp_all
  have J7: "\<forall>g \<in> set rest. \<forall>d \<in> insert ?t D.
            \<not> prefix d (js_split (CHR ''/'') (filePath g))
            \<and> \<not> prefix (js_split (CHR ''/'') (filePath g)) d"
  proof (intro ballI)
    fix g d assume g: "g \<in> set rest" and d: "d \<in> insert ?t D"
    show "\<not> prefix d (js_split (CHR ''/'') (filePath g))
            \<and> \<not> prefix (js_split (CHR ''/'') (filePath g)) d"
    proof (cases "d = ?t")
      case True
      from g fr have "f \<noteq> g" by auto
      with Cons.prems(5) g True show ?thesis by (metis list.set_intros(1,2))
    next
      case False
      with d g Cons.prems(7) show ?thesis by simp
    qed
  qed
  have "populate (abs_path rs) (f # rest) (orig, fs)
          = populate (abs_path rs) rest (orig(replace_backslashes ?p \<mapsto> content f), fs2)"
    using m w by (simp add: Let_def st(1) st(3) [OF nt] bl)
  with Cons.IH [OF J1 J2 J3 ppr pfr dr J7] show ?case by simp
qed


lemma prepare_completes:
  assumes ds: "\<forall>s \<in> set ds. valid_name s" and dir: "dir_at fs ds"
    and pp: "\<forall>f \<in> set fileList. proper_path (filePath f)"
    and di: "distinct (map filePath fileList)"
    and pf: "\<forall>f \<in> set fileList. \<forall>g \<in> set fileList.
               prefix (js_split (CHR ''/'') (filePath f)) (js_split (CHR ''/'') (filePath g))
               \<longrightarrow> filePath f = filePath g"
  shows "fst (prepare (abs_path ds) fileList fs) = None"
proof -
  let ?rs = "ds @ [''USER_FILES'']"
  note pr = prepare_root [OF ds]
  have ne: "?rs \<noteq> []" by simp
  from fresh_root [OF dir, of "''USER_FILES''"] obtain fs1 fs2 where
    r: "rm ?rs fs = Inr fs1" and m: "mkdirp ?rs fs1 = Inr fs2"
    and a: "dir_at fs2 ?rs" and b: "\<forall>t. file_at fs2 (?rs @ t) = None"
    and c: "\<forall>t. t \<noteq> [] \<longrightarrow> \<not> dir_at fs2 (?rs @ t)" by blast
  have inj: "inj_on filePath (set fileList)" and dl: "distinct fileList"
    using di by (simp_all add: distinct_map)
  have pf': "\<forall>f \<in> set fileList. \<forall>g \<in> set fileList.
               prefix (js_split (CHR ''/'') (filePath f)) (js_split (CHR ''/'') (filePath g))
               \<longrightarrow> f = g"
    using pf inj by (auto dest: inj_onD)
  have "fst (populate (abs_path ?rs) fileList (Map.empty, fs2)) = None"
    by (rule populate_succeeds [OF pr(2) ne a _ _ pp pf' dl, where D = "{}"])
       (use b c in auto)
  with r m show ?thesis by (simp add: prepare_def pr Let_def)
qed


section \<open>Facts about repeated writes to the folder\<close>

lemma write_parts_Cons:
  "write_parts (s # ps) data es =
     (if \<not> valid_name s then (Some TypeError, es)
      else (fentry ps data (map_of es s),
            case wentry ps data (map_of es s) of None \<Rightarrow> es | Some n \<Rightarrow> AList.update s n es))"
  by (cases ps)
     (auto simp: wentry_def fentry_def split: option.splits node.splits prod.splits)

lemma settled_Cons:
  "settled es (s # ps) = (\<not> valid_name s \<or> sentry ps (map_of es s))"
  by (cases ps) (auto simp: sentry_def split: option.splits node.splits)

lemma write_parts_Nil: "write_parts [] data es = (Some TypeError, es)"
  by simp

lemma fst_write_parts_data:
  "fst (write_parts ps data es) = fst (write_parts ps data' es)"
proof (induction ps arbitrary: es)
  case Nil
  show ?case by simp
next
  case (Cons s ps)
  show ?case
    using Cons.IH
    by (simp add: write_parts_Cons fentry_def split: option.splits node.splits)
qed

lemma write_parts_twice:
  "write_parts ps data (snd (write_parts ps data' es)) = write_parts ps data es"
proof (induction ps arbitrary: es)
  case Nil
  show ?case by simp
next
  case (Cons s ps)
  show ?case
  proof (cases "valid_name s")
    case False
    then show ?thesis by (simp add: write_parts_Cons)
  next
    case True
    show ?thesis
    proof (cases "ps = []")
      case e: True
      with True show ?thesis
        by (auto simp: write_parts_Cons wentry_def fentry_def update_conv'
            split: option.splits node.splits)
    next
      case ne: False
      with True Cons.IH show ?thesis
        by (auto simp: write_parts_Cons wentry_def fentry_def update_conv'
            split: option.splits node.splits)
    qed
  qed
qed

lemma settled_after_write: "settled (snd (write_parts ps data es)) ps"
proof (induction ps arbitrary: es)
  case Nil
  show ?case by simp
next
  case (Cons s ps)
  show ?case
    using Cons.IH
    by (auto simp: write_parts_Cons settled_Cons wentry_def sentry_def update_conv'
        split: option.splits node.splits)
qed

lemma settled_kept:
  "settled es ps \<Longrightarrow>
   settled (snd (write_parts qs d es)) ps
   \<and> fst (write_parts ps c (snd (write_parts qs d es))) = fst (write_parts ps c es)"
proof (induction ps arbitrary: es qs)
  case Nil
  show ?case by simp
next
  case (Cons s ps)
  show ?case
  proof (cases qs)
    case Nil
    with Cons.prems show ?thesis by simp
  next
    case q: (Cons t qs')
    show ?thesis
    proof (cases "valid_name s \<and> valid_name t")
      case False
      with Cons.prems q show ?thesis
        by (auto simp: write_parts_Cons settled_Cons)
    next
      case v: True
      show ?thesis
      proof (cases "t = s")
        case False
        with v Cons.prems q show ?thesis
          by (auto simp: write_parts_Cons settled_Cons update_conv' split: option.splits)
      next
        case True
        from Cons.prems v obtain n where n: "map_of es s = Some n"
          by (auto simp: settled_Cons sentry_def split: option.splits)
        show ?thesis
        proof (cases n)
          case (File x)
          with n v True q show ?thesis
            by (auto simp: write_parts_Cons settled_Cons sentry_def wentry_def fentry_def
                update_conv' split: option.splits node.splits)
        next
          case (Dir sub)
          show ?thesis
          proof (cases "ps = [] \<or> qs' = []")
            case e: True
            with Dir n v True q Cons.prems show ?thesis
              by (auto simp: write_parts_Cons settled_Cons sentry_def wentry_def fentry_def
                  update_conv' split: option.splits node.splits)
          next
            case ne: False
            from Cons.prems Dir n v ne have "settled sub ps"
              by (simp add: settled_Cons sentry_def)
            from Cons.IH [OF this, of qs'] Dir n v True q ne show ?thesis
              by (simp add: write_parts_Cons settled_Cons sentry_def wentry_def fentry_def
                  update_conv')
          qed
        qed
      qed
    qed
  qed
qed

lemma update_commute:
  "k \<noteq> k' \<Longrightarrow> map_of al k \<noteq> None \<Longrightarrow> map_of al k' \<noteq> None \<Longrightarrow>
   AList.update k v (AList.update k' v' al) = AList.update k' v' (AList.update k v al)"
  by (induction al) auto

lemma settled_present:
  "settled es (s # ps) \<Longrightarrow> valid_name s \<Longrightarrow> map_of es s \<noteq> None"
  by (auto simp: settled_Cons sentry_def split: option.splits)

lemma write_commute:
  "settled es ps \<Longrightarrow> settled es qs \<Longrightarrow> ps \<noteq> qs \<Longrightarrow>
   snd (write_parts ps c (snd (write_parts qs d es)))
     = snd (write_parts qs d (snd (write_parts ps c es)))"
proof (induction ps arbitrary: es qs)
  case Nil
  show ?case by simp
next
  case (Cons s ps)
  show ?case
  proof (cases qs)
    case Nil
    then show ?thesis by simp
  next
    case q: (Cons t qs')
    show ?thesis
    proof (cases "valid_name s \<and> valid_name t")
      case False
      with q show ?thesis
        by (auto simp: write_parts_Cons split: option.splits)
    next
      case v: True
      from Cons.prems(1) v have ps: "map_of es s \<noteq> None" by (auto dest: settled_present)
      from Cons.prems(2) v q have pt: "map_of es t \<noteq> None" by (auto dest: settled_present)
      show ?thesis
      proof (cases "t = s")
        case False
        with v q ps pt show ?thesis
          by (auto simp: write_parts_Cons update_conv' update_commute split: option.splits)
      next
        case True
        from ps obtain n where n: "map_of es s = Some n" by auto
        show ?thesis
        proof (cases n)
          case (File x)
          with n v True q Cons.prems(3) show ?thesis
            by (auto simp: write_parts_Cons wentry_def update_conv'
                split: option.splits node.splits)
        next
          case (Dir sub)
          show ?thesis
          proof (cases "ps = [] \<or> qs' = []")
            case e: True
            with Dir n v True q Cons.prems(3) show ?thesis
              by (auto simp: write_parts_Cons wentry_def update_conv'
                  split: option.splits node.splits)
          next
            case ne: False
            from Cons.prems Dir n v ne q True have "settled sub ps" "settled sub qs'" "ps \<noteq> qs'"
              by (simp_all add: settled_Cons sentry_def)
            from Cons.IH [OF this] Dir n v True q ne show ?thesis
              by (simp add: write_parts_Cons wentry_def update_conv')
          qed
        qed
      qed
    qed
  qed
qed

lemma update_same_value:
  "AList.update k v al = al \<Longrightarrow> map_of al k = Some v"
  by (metis update_conv' fun_upd_same)

lemma write_fixed_kept:
  "snd (write_parts ps c es) = es \<Longrightarrow> ps \<noteq> qs \<Longrightarrow>
   snd (write_parts ps c (snd (write_parts qs d es))) = snd (write_parts qs d es)"
proof (induction ps arbitrary: es qs)
  case Nil
  show ?case by simp
next
  case (Cons s ps)
  show ?case
  proof (cases qs)
    case Nil
    with Cons.prems show ?thesis by simp
  next
    case q: (Cons t qs')
    show ?thesis
    proof (cases "valid_name s")
      case False
      then show ?thesis by (simp add: write_parts_Cons)
    next
      case v: True
      let ?es2 = "snd (write_parts qs d es)"
      show ?thesis
      proof (cases "wentry ps c (map_of es s)")
        case None
        \<comment> \<open>the write of \<open>ps\<close> is refused at \<open>s\<close>, and stays refused\<close>
        have "wentry ps c (map_of ?es2 s) = None"
          using None q
          by (auto simp: write_parts_Cons wentry_def update_conv'
              split: option.splits node.splits if_splits)
        with v show ?thesis by (simp add: write_parts_Cons)
      next
        case (Some n)
        with Cons.prems(1) v have "AList.update s n es = es" by (simp add: write_parts_Cons)
        then have n: "map_of es s = Some n" by (rule update_same_value)
        show ?thesis
        proof (cases "t = s \<and> valid_name t")
          case False
          then have "map_of ?es2 s = Some n"
            using n q by (auto simp: write_parts_Cons update_conv' split: option.splits)
          moreover from Some n have "wentry ps c (Some n) = Some n" by simp
          ultimately show ?thesis
            using v by (simp add: write_parts_Cons update_triv)
        next
          case ts: True
          show ?thesis
          proof (cases n)
            case (File x)
            with Some n have e: "ps = []" "x = c"
              by (auto simp: wentry_def split: if_splits)
            with Cons.prems(2) q ts have "qs' \<noteq> []" by auto
            with File n ts q have "?es2 = es"
              by (simp add: write_parts_Cons wentry_def)
            with Cons.prems(1) show ?thesis by simp
          next
            case (Dir sub)
            with Some n have pne: "ps \<noteq> []" and fx: "snd (write_parts ps c sub) = sub"
              by (auto simp: wentry_def split: if_splits)
            show ?thesis
            proof (cases "qs' = []")
              case True
              with Dir n ts q have "?es2 = es" by (simp add: write_parts_Cons wentry_def)
              with Cons.prems(1) show ?thesis by simp
            next
              case False
              from Cons.prems(2) q ts have "ps \<noteq> qs'" by auto
              from Cons.IH [OF fx this] Dir n ts q pne False v show ?thesis
                by (simp add: write_parts_Cons wentry_def update_conv')
            qed
          qed
        qed
      qed
    qed
  qed
qed

lemma write_of_parts: "write_of m h = snd (write_parts (parts_of m) (modifiedContent m) h)"
  by (simp add: write_of_def parts_of_def writeFileToDirectoryHandle_def)

lemma flag_of_parts: "flag_of m h = fst (write_parts (parts_of m) (modifiedContent m) h)"
  by (simp add: flag_of_def parts_of_def writeFileToDirectoryHandle_def)

lemma apply_changes_Cons:
  "apply_changes (m # ms) h =
     (case flag_of m h of
        Some e \<Rightarrow> (Some e, write_of m h)
      | None \<Rightarrow> apply_changes ms (write_of m h))"
  by (simp add: flag_of_def write_of_def split: prod.splits option.splits)

lemma write_of_absorb:
  assumes "parts_of m = parts_of m'"
  shows "write_of m (write_of m' h) = write_of m h"
    and "flag_of m (write_of m' h) = flag_of m h"
  using write_parts_twice [of "parts_of m" "modifiedContent m" "modifiedContent m'" h] assms
  by (simp_all add: write_of_parts flag_of_parts)

lemma write_of_settled: "settled (write_of m h) (parts_of m)"
  by (simp add: write_of_parts settled_after_write)

lemma write_of_keeps_settled:
  assumes "settled h (parts_of m)"
  shows "settled (write_of m' h) (parts_of m)"
    and "flag_of m (write_of m' h) = flag_of m h"
  using settled_kept [OF assms, of "parts_of m'" "modifiedContent m'" "modifiedContent m"]
  by (simp_all add: write_of_parts flag_of_parts)

lemma write_of_commute:
  assumes "settled h (parts_of m)" "settled h (parts_of m')" "parts_of m \<noteq> parts_of m'"
  shows "write_of m (write_of m' h) = write_of m' (write_of m h)"
  using write_commute [OF assms] by (simp add: write_of_parts)

lemma write_of_fixed_kept:
  assumes "write_of m h = h" "parts_of m \<noteq> parts_of m'"
  shows "write_of m (write_of m' h) = write_of m' h"
  using write_fixed_kept [of "parts_of m" "modifiedContent m" h "parts_of m'" "modifiedContent m'"]
    assms by (simp add: write_of_parts)

lemma run_writes_append: "run_writes (xs @ ys) h = run_writes ys (run_writes xs h)"
  by (induction xs arbitrary: h) simp_all

lemma run_keeps_settled:
  "settled h (parts_of m) \<Longrightarrow>
   settled (run_writes zs h) (parts_of m) \<and> flag_of m (run_writes zs h) = flag_of m h"
proof (induction zs arbitrary: h)
  case Nil
  then show ?case by simp
next
  case (Cons z zs)
  from write_of_keeps_settled [OF Cons.prems, of z] Cons.IH [of "write_of z h"]
  show ?case by simp
qed

lemma run_all_settled: "\<forall>x \<in> set xs. settled (run_writes xs h) (parts_of x)"
proof (induction xs arbitrary: h)
  case Nil
  show ?case by simp
next
  case (Cons x xs)
  have "settled (run_writes xs (write_of x h)) (parts_of x)"
    using run_keeps_settled [OF write_of_settled [of x h], of xs] by simp
  with Cons.IH [of "write_of x h"] show ?case by simp
qed

lemma run_absorbs:
  "\<forall>x \<in> set (y # zs). settled t (parts_of x) \<Longrightarrow> parts_of y \<in> parts_of ` set zs \<Longrightarrow>
   run_writes zs (write_of y t) = run_writes zs t"
proof (induction zs arbitrary: t)
  case Nil
  then show ?case by simp
next
  case (Cons z zs)
  show ?case
  proof (cases "parts_of z = parts_of y")
    case True
    then show ?thesis by (simp add: write_of_absorb(1))
  next
    case False
    with Cons.prems(2) have in_zs: "parts_of y \<in> parts_of ` set zs" by auto
    from Cons.prems(1) have sy: "settled t (parts_of y)" and sz: "settled t (parts_of z)"
      and szs: "\<forall>x \<in> set zs. settled t (parts_of x)" by simp_all
    have c: "write_of z (write_of y t) = write_of y (write_of z t)"
      using sz sy False by (rule write_of_commute)
    have "\<forall>x \<in> set (y # zs). settled (write_of z t) (parts_of x)"
      using sy szs by (auto intro: write_of_keeps_settled(1))
    from Cons.IH [OF this in_zs] c show ?thesis by simp
  qed
qed

lemma run_commutes:
  "\<forall>x \<in> set (y # zs). settled t (parts_of x) \<Longrightarrow> parts_of y \<notin> parts_of ` set zs \<Longrightarrow>
   run_writes zs (write_of y t) = write_of y (run_writes zs t)"
proof (induction zs arbitrary: t)
  case Nil
  then show ?case by simp
next
  case (Cons z zs)
  from Cons.prems(2) have ne: "parts_of z \<noteq> parts_of y"
    and notin: "parts_of y \<notin> parts_of ` set zs" by auto
  from Cons.prems(1) have sy: "settled t (parts_of y)" and sz: "settled t (parts_of z)"
    and szs: "\<forall>x \<in> set zs. settled t (parts_of x)" by simp_all
  have c: "write_of z (write_of y t) = write_of y (write_of z t)"
    using sz sy ne by (rule write_of_commute)
  have "\<forall>x \<in> set (y # zs). settled (write_of z t) (parts_of x)"
    using sy szs by (auto intro: write_of_keeps_settled(1))
  from Cons.IH [OF this notin] c show ?case by simp
qed

lemma run_keeps_fixed:
  "write_of y t = t \<Longrightarrow> parts_of y \<notin> parts_of ` set zs \<Longrightarrow>
   write_of y (run_writes zs t) = run_writes zs t"
proof (induction zs arbitrary: t)
  case Nil
  then show ?case by simp
next
  case (Cons z zs)
  from Cons.prems(2) have ne: "parts_of y \<noteq> parts_of z"
    and notin: "parts_of y \<notin> parts_of ` set zs" by auto
  have "write_of y (write_of z t) = write_of z t"
    using Cons.prems(1) ne by (rule write_of_fixed_kept)
  from Cons.IH [OF this notin] show ?case by simp
qed

lemma run_twice: "run_writes ys (run_writes ys t0) = run_writes ys t0"
proof (induction ys arbitrary: t0)
  case Nil
  show ?case by simp
next
  case (Cons y ys)
  let ?s = "run_writes (y # ys) t0"
  have st: "\<forall>x \<in> set (y # ys). settled ?s (parts_of x)" by (rule run_all_settled)
  have IH: "run_writes ys ?s = ?s" using Cons.IH [of "write_of y t0"] by simp
  have "run_writes ys (write_of y ?s) = ?s"
  proof (cases "parts_of y \<in> parts_of ` set ys")
    case True
    from run_absorbs [OF st True] IH show ?thesis by simp
  next
    case False
    have "write_of y (write_of y t0) = write_of y t0" by (simp add: write_of_absorb(1))
    from run_keeps_fixed [OF this False] have "write_of y ?s = ?s" by simp
    with run_commutes [OF st False] IH show ?thesis by simp
  qed
  then show ?case by simp
qed

lemma apply_changes_run:
  "snd (apply_changes ms h) = run_writes (attempted ms h) h"
proof (induction ms arbitrary: h)
  case Nil
  show ?case by simp
next
  case (Cons m ms)
  show ?case
    using Cons.IH [of "write_of m h"]
    by (cases "flag_of m h") (simp_all add: apply_changes_Cons del: apply_changes.simps)
qed

lemma apply_changes_again:
  "t = run_writes zs (snd (apply_changes ms h)) \<Longrightarrow>
   apply_changes ms t = (fst (apply_changes ms h), run_writes (attempted ms h) t)"
proof (induction ms arbitrary: h t zs)
  case Nil
  show ?case by simp
next
  case (Cons m ms)
  let ?h1 = "write_of m h"
  have "\<exists>ys. snd (apply_changes (m # ms) h) = run_writes ys ?h1"
  proof (cases "flag_of m h")
    case None
    then have "snd (apply_changes (m # ms) h) = run_writes (attempted ms ?h1) ?h1"
      using apply_changes_run [of ms ?h1]
      by (simp add: apply_changes_Cons del: apply_changes.simps)
    then show ?thesis by blast
  next
    case (Some e)
    then have "snd (apply_changes (m # ms) h) = run_writes [] ?h1"
      by (simp add: apply_changes_Cons del: apply_changes.simps)
    then show ?thesis by blast
  qed
  then obtain ys where "snd (apply_changes (m # ms) h) = run_writes ys ?h1" by blast
  with Cons.prems have t: "t = run_writes (ys @ zs) ?h1" by (simp add: run_writes_append)
  have fl: "flag_of m t = flag_of m h"
    using run_keeps_settled [OF write_of_settled [of m h], of "ys @ zs"] t
    by (simp add: write_of_absorb(2))
  show ?case
  proof (cases "flag_of m h")
    case (Some e)
    with fl show ?thesis by (simp add: apply_changes_Cons del: apply_changes.simps)
  next
    case None
    then have s: "snd (apply_changes (m # ms) h) = snd (apply_changes ms ?h1)"
      by (simp add: apply_changes_Cons del: apply_changes.simps)
    have "write_of m t = run_writes (zs @ [m]) (snd (apply_changes ms ?h1))"
      using Cons.prems s by (simp add: run_writes_append)
    from Cons.IH [OF this] None fl show ?thesis
      by (simp add: apply_changes_Cons del: apply_changes.simps)
  qed
qed

lemma apply_changes_twice:
  "apply_changes ms (snd (apply_changes ms h)) = apply_changes ms h"
proof -
  let ?s = "snd (apply_changes ms h)"
  have s: "?s = run_writes (attempted ms h) h" by (rule apply_changes_run)
  have "apply_changes ms ?s = (fst (apply_changes ms h), run_writes (attempted ms h) ?s)"
    by (rule apply_changes_again [where zs = "[]"]) simp
  also have "run_writes (attempted ms h) ?s = ?s"
    using run_twice [of "attempted ms h" h] s by simp
  finally show ?thesis by simp
qed

lemma file_at_written:
  "write_parts ps data es = (None, es') \<Longrightarrow> file_at (Dir es') ps = Some data"
proof (induction ps arbitrary: es es')
  case Nil
  then show ?case by simp
next
  case (Cons s ps)
  show ?case
  proof (cases "ps = []")
    case True
    with Cons.prems show ?thesis
      by (auto simp: write_parts_Cons wentry_def fentry_def file_at_Dir_Cons update_conv'
          split: if_splits option.splits node.splits)
  next
    case False
    from Cons.prems have v: "valid_name s" by (auto simp: write_parts_Cons split: if_splits)
    let ?sub = "case map_of es s of Some (Dir sub) \<Rightarrow> sub | _ \<Rightarrow> []"
    from Cons.prems v False have nf: "\<forall>c. map_of es s \<noteq> Some (File c)"
      by (auto simp: write_parts_Cons fentry_def)
    from Cons.prems v False nf
    have w: "write_parts ps data ?sub = (None, snd (write_parts ps data ?sub))"
      and e: "es' = AList.update s (Dir (snd (write_parts ps data ?sub))) es"
      by (auto simp: write_parts_Cons fentry_def wentry_def prod_eq_iff
          split: option.splits node.splits)
    from Cons.IH [OF w] e show ?thesis
      by (simp add: file_at_Dir_Cons update_conv')
  qed
qed

section \<open>Paths apart from the workspace root\<close>








section \<open>Facts about the propose phase on one disk\<close>




lemma code_agent_run_response:
  "fst (code_agent_run dirname fs agent req) = code_agent dirname fs agent req"
  by (simp add: code_agent_run_def code_agent_def Let_def split: prod.splits option.splits)




section \<open>The claims\<close>

text \<open>
  In the statements below \<open>abs_path ds\<close> is \<open>__dirname\<close>, the directory of \<open>server.js\<close>, so
  that \<open>path_join (abs_path ds) ''USER_FILES''\<close> is the workspace root \<open>userFilesDir\<close>; \<open>fs\<close> is
  the server's disk and \<open>Dir es\<close> the workspace directory found in it.
\<close>

subsection \<open>C1: what the change detector reports\<close>

text \<open>
  C1. For every snapshot and every final workspace tree, the result of the change detector
  is, in the order of the walk, one entry for each workspace file whose content differs
  from the snapshot entry at the file's normalized relative path (the relative path with
  every backslash replaced by a slash); a file with no snapshot entry is included, a file
  with identical content is excluded, and the entry's \<open>modifiedContent\<close> is the file's
  content in the final workspace.
\<close>

theorem change_detector_exact:
  assumes "\<forall>s \<in> set ds. valid_name s"
    and "lookup fs (ds @ [''USER_FILES'']) = Some (Dir es)"
    and "wf_entries es"
  shows "detect_changes (path_join (abs_path ds) ''USER_FILES'') snapshot fs
           = Inr (map (\<lambda>(segs, c). \<lparr>mfPath = reported_path segs, modifiedContent = c\<rparr>)
                    (filter (\<lambda>(segs, c). snapshot (reported_path segs) \<noteq> Some c)
                       (files_of (Dir es))))
         \<and> (\<forall>(segs, c) \<in> set (files_of (Dir es)).
               (\<lparr>mfPath = reported_path segs, modifiedContent = c\<rparr>
                  \<in> set (map (\<lambda>(segs, c). \<lparr>mfPath = reported_path segs, modifiedContent = c\<rparr>)
                         (filter (\<lambda>(segs, c). snapshot (reported_path segs) \<noteq> Some c)
                            (files_of (Dir es)))))
               = (snapshot (reported_path segs) \<noteq> Some c))"
proof
  show "detect_changes (path_join (abs_path ds) ''USER_FILES'') snapshot fs
           = Inr (map (\<lambda>(segs, c). \<lparr>mfPath = reported_path segs, modifiedContent = c\<rparr>)
                    (filter (\<lambda>(segs, c). snapshot (reported_path segs) \<noteq> Some c)
                       (files_of (Dir es))))"
    using assms by (rule detect_changes_files)
  show "\<forall>(segs, c) \<in> set (files_of (Dir es)).
               (\<lparr>mfPath = reported_path segs, modifiedContent = c\<rparr>
                  \<in> set (map (\<lambda>(segs, c). \<lparr>mfPath = reported_path segs, modifiedContent = c\<rparr>)
                         (filter (\<lambda>(segs, c). snapshot (reported_path segs) \<noteq> Some c)
                            (files_of (Dir es)))))
               = (snapshot (reported_path segs) \<noteq> Some c)"
    by auto
qed

text \<open>The theorem at a workspace where one file was changed, one added and one left as it
  was.\<close>

theorem change_detector_exact_witness:
  "detect_changes (path_join (abs_path [''srv'', ''app'']) ''USER_FILES'')
     [''a.txt'' \<mapsto> ''hello'', ''d/b.txt'' \<mapsto> ''y'']
     (Dir [(''srv'', Dir [(''app'', Dir [(''server.js'', File ''code''),
        (''USER_FILES'', Dir [(''a.txt'', File ''hello world''),
                              (''d'', Dir [(''b.txt'', File ''y''), (''c.txt'', File ''new'')])])])])])
   = Inr [\<lparr>mfPath = ''a.txt'', modifiedContent = ''hello world''\<rparr>,
          \<lparr>mfPath = ''d/c.txt'', modifiedContent = ''new''\<rparr>]"
  using change_detector_exact [of "[''srv'', ''app'']"
      "Dir [(''srv'', Dir [(''app'', Dir [(''server.js'', File ''code''),
        (''USER_FILES'', Dir [(''a.txt'', File ''hello world''),
                              (''d'', Dir [(''b.txt'', File ''y''), (''c.txt'', File ''new'')])])])])]"
      "[(''a.txt'', File ''hello world''),
        (''d'', Dir [(''b.txt'', File ''y''), (''c.txt'', File ''new'')])]"
      "[''a.txt'' \<mapsto> ''hello'', ''d/b.txt'' \<mapsto> ''y'']"]
  by (simp add: valid_name_def reported_path_def replace_backslashes_def)

subsection \<open>C2: the terminal record of a run\<close>

text \<open>
  C2 asks that a run whose validation passed ends with a \<open>{modifiedFiles}\<close> record after exit
  code 0 and with an explicit failure indicator after any other exit. The handler sends
  the failure indicator only while the headers are unsent. At the run below the process
  prints one line and exits with code 1: the response has status 200, holds the one
  \<open>{stdout}\<close> record and ends; the caller's reading loop finishes without a notification
  and without a pending change set.
\<close>

theorem failed_run_after_output_ends_silently:
  "code_agent ''/srv/app''
     (Dir [(''srv'', Dir [(''app'', Dir [(''server.js'', File ''code'')])])])
     (\<lambda>fs. ([StdoutData (''working'' @ [CHR 0x0A]), Close (Some 1)], fs))
     \<lparr>prompt = ''fix it'', files = [\<lparr>filePath = ''a.txt'', content = ''hello''\<rparr>]\<rparr>
   = \<lparr>statusCode = 200, headersSent = True, body = [Stdout ''working''], writableEnded = True\<rparr>
   \<and> notification (handleCodeAgent
         (code_agent ''/srv/app''
            (Dir [(''srv'', Dir [(''app'', Dir [(''server.js'', File ''code'')])])])
            (\<lambda>fs. ([StdoutData (''working'' @ [CHR 0x0A]), Close (Some 1)], fs)))
         ''fix it''
         \<lparr>directoryHandle = Some [(''a.txt'', File ''hello'')], localRoute = ''proj'',
          isNovo = True, pendingChanges = [], originalFiles = [], activeDiffTab = [],
          showDiffPanel = False, showCodeAgentDiff = False, messages = [],
          implemented = False, notification = None\<rparr>) = None
   \<and> pendingChanges (handleCodeAgent
         (code_agent ''/srv/app''
            (Dir [(''srv'', Dir [(''app'', Dir [(''server.js'', File ''code'')])])])
            (\<lambda>fs. ([StdoutData (''working'' @ [CHR 0x0A]), Close (Some 1)], fs)))
         ''fix it''
         \<lparr>directoryHandle = Some [(''a.txt'', File ''hello'')], localRoute = ''proj'',
          isNovo = True, pendingChanges = [], originalFiles = [], activeDiffTab = [],
          showDiffPanel = False, showCodeAgentDiff = False, messages = [],
          implemented = False, notification = None\<rparr>) = []"
  by (simp add: eval_defs handleCodeAgent_def endsWith_def IGNORE_EXTENSIONS_def)

subsection \<open>C3: forwarding of standard output\<close>

text \<open>
  C3 (as amended). For every sequence of stdout chunks, the invoker handles each chunk on
  its own and in arrival order: it splits that chunk at the newlines and forwards each
  piece that is not whitespace-only as one \<open>{stdout}\<close> record, keeping nothing between
  chunks; the records of a run are the pieces of the first chunk, then those of the
  second, and so on, so a line that arrives in two chunks is forwarded as two records.
  When every chunk ends at a line boundary, the records are exactly the non-blank
  newline-terminated lines of the whole output, each once and in the order written; blank
  lines are dropped.
\<close>

theorem stdout_forwarded_chunk_by_chunk:
  "body (stdout_events chunks new_response)
     = map Stdout (concat (map (\<lambda>chunk. filter (\<lambda>line. trim line \<noteq> [])
                                          (js_split (CHR 0x0A) chunk)) chunks))
   \<and> ((\<forall>c \<in> set chunks. c = [] \<or> last c = CHR 0x0A) \<longrightarrow>
        body (stdout_events chunks new_response)
          = map Stdout (filter (\<lambda>line. trim line \<noteq> []) (stdout_lines (concat chunks))))"
proof (intro conjI impI)
  have "\<not> writableEnded new_response" by (simp add: new_response_def)
  from body_stdout_events [OF this, of chunks]
  show pieces: "body (stdout_events chunks new_response)
     = map Stdout (concat (map (\<lambda>chunk. filter (\<lambda>line. trim line \<noteq> [])
                                          (js_split (CHR 0x0A) chunk)) chunks))"
    by (simp add: new_response_def)
  assume "\<forall>c \<in> set chunks. c = [] \<or> last c = CHR 0x0A"
  from aligned_chunks_lines [OF this] pieces
  show "body (stdout_events chunks new_response)
          = map Stdout (filter (\<lambda>line. trim line \<noteq> []) (stdout_lines (concat chunks)))"
    by (simp add: stdout_lines_def)
qed

text \<open>The theorem at two chunks that end at line boundaries, the first holding two lines
  and a blank one between them.\<close>

theorem stdout_forwarded_chunk_by_chunk_witness:
  "body (stdout_events [''ab'' @ [CHR 0x0A, CHR 0x0A] @ ''cd'' @ [CHR 0x0A], ''ef'' @ [CHR 0x0A]]
           new_response)
     = [Stdout ''ab'', Stdout ''cd'', Stdout ''ef'']
   \<and> stdout_lines (concat [''ab'' @ [CHR 0x0A, CHR 0x0A] @ ''cd'' @ [CHR 0x0A], ''ef'' @ [CHR 0x0A]])
     = [''ab'', [], ''cd'', ''ef'']"
  using stdout_forwarded_chunk_by_chunk
          [of "[''ab'' @ [CHR 0x0A, CHR 0x0A] @ ''cd'' @ [CHR 0x0A], ''ef'' @ [CHR 0x0A]]"]
  by (simp add: stdout_lines_def trim_def js_whitespace_def)

text \<open>
  C3 as stated fails: the line \<open>hello\<close>, written in the two chunks \<open>hel\<close> and \<open>lo\<close> plus
  newline, is forwarded as two records.
\<close>

theorem stdout_line_assembly_counterexample:
  "stdout_lines (concat [''hel'', ''lo'' @ [CHR 0x0A]]) = [''hello'']
   \<and> body (stdout_events [''hel'', ''lo'' @ [CHR 0x0A]] new_response)
       = [Stdout ''hel'', Stdout ''lo'']"
  by (simp add: stdout_lines_def on_stdout_data_def res_write_def new_response_def trim_def
      js_whitespace_def)
subsection \<open>C4: paths with \<open>..\<close> in workspace preparation\<close>

text \<open>
  C4 (as amended). Workspace preparation neither rejects nor sanitizes a path: every file
  is written at \<open>path.join(userFilesDir, filePath)\<close>. For a list whose paths hold no \<open>..\<close>
  between their slashes, every write location lies under the workspace root, and whether
  the preparation completes or stops at an error, every path of the disk that is not under
  the root holds the file content it held before.
\<close>

theorem preparation_without_dotdot_stays_inside:
  assumes "\<forall>s \<in> set ds. valid_name s"
    and "\<forall>f \<in> set fileList. dotdot_free (filePath f)"
  shows "(\<forall>f \<in> set fileList.
            prefix (ds @ [''USER_FILES''])
              (fs_segments (path_join (path_join (abs_path ds) ''USER_FILES'') (filePath f))))
         \<and> (\<forall>q. \<not> prefix (ds @ [''USER_FILES'']) q \<longrightarrow>
               file_at (snd (snd (prepare (abs_path ds) fileList fs))) q = file_at fs q)"
proof (intro conjI ballI allI impI)
  let ?rs = "ds @ [''USER_FILES'']"
  note pr = prepare_root [OF assms(1)]
  fix f assume "f \<in> set fileList"
  with assms(2) have dd: "dotdot_free (filePath f)" by simp
  let ?t = "filter (\<lambda>s. s \<noteq> [] \<and> s \<noteq> ''.'') (js_split (CHR ''/'') (filePath f))"
  have v: "\<forall>s \<in> set (?rs @ ?t). valid_name s"
    using pr(2) dotdot_free_pieces [OF dd] by auto
  have "fs_segments (path_join (abs_path ?rs) (filePath f)) = ?rs @ ?t"
    using path_join_root [OF pr(2) _ dd] fs_segments_abs_path [OF v]
      fs_segments_abs_path_slash [OF v] by simp
  then show "prefix ?rs (fs_segments (path_join (path_join (abs_path ds) ''USER_FILES'')
                (filePath f)))"
    by (simp add: pr(1))
next
  fix q assume "\<not> prefix (ds @ [''USER_FILES'']) q"
  with assms show "file_at (snd (snd (prepare (abs_path ds) fileList fs))) q = file_at fs q"
    by (rule prepare_outside)
qed

text \<open>A path with a \<open>.\<close> segment: the file lands under the root and \<open>server.js\<close> beside the
  root is untouched.\<close>

theorem preparation_without_dotdot_stays_inside_witness:
  "prefix [''srv'', ''app'', ''USER_FILES'']
     (fs_segments (path_join (path_join (abs_path [''srv'', ''app'']) ''USER_FILES'') ''a/./b.txt''))
   \<and> file_at (snd (snd (prepare (abs_path [''srv'', ''app''])
        [\<lparr>filePath = ''a/./b.txt'', content = ''x''\<rparr>]
        (Dir [(''srv'', Dir [(''app'', Dir [(''server.js'', File ''code'')])])]))))
        [''srv'', ''app'', ''server.js''] = Some ''code''
   \<and> file_at (snd (snd (prepare (abs_path [''srv'', ''app''])
        [\<lparr>filePath = ''a/./b.txt'', content = ''x''\<rparr>]
        (Dir [(''srv'', Dir [(''app'', Dir [(''server.js'', File ''code'')])])]))))
        [''srv'', ''app'', ''USER_FILES'', ''a'', ''b.txt''] = Some ''x''"
  using preparation_without_dotdot_stays_inside [of "[''srv'', ''app'']"
      "[\<lparr>filePath = ''a/./b.txt'', content = ''x''\<rparr>]"
      "Dir [(''srv'', Dir [(''app'', Dir [(''server.js'', File ''code'')])])]"]
  by (simp add: eval_defs abs_path_def valid_name_def dotdot_free_def file_at_def)

text \<open>
  C4 as stated fails: the path \<open>../server.js\<close> is accepted, resolves to the server's own
  \<open>server.js\<close> outside the root, and that file is overwritten.
\<close>

theorem dotdot_path_escapes_root_counterexample:
  "fst (prepare (abs_path [''srv'', ''app''])
        [\<lparr>filePath = ''../server.js'', content = ''x''\<rparr>]
        (Dir [(''srv'', Dir [(''app'', Dir [(''server.js'', File ''code'')])])])) = None
   \<and> fs_segments (path_join (path_join (abs_path [''srv'', ''app'']) ''USER_FILES'')
        ''../server.js'') = [''srv'', ''app'', ''server.js'']
   \<and> file_at (Dir [(''srv'', Dir [(''app'', Dir [(''server.js'', File ''code'')])])])
        [''srv'', ''app'', ''server.js''] = Some ''code''
   \<and> file_at (snd (snd (prepare (abs_path [''srv'', ''app''])
        [\<lparr>filePath = ''../server.js'', content = ''x''\<rparr>]
        (Dir [(''srv'', Dir [(''app'', Dir [(''server.js'', File ''code'')])])]))))
        [''srv'', ''app'', ''server.js''] = Some ''x''"
  by (simp add: eval_defs abs_path_def file_at_def)

subsection \<open>C5: the true store during the propose phase\<close>




subsection \<open>C6: a failed write during the commit\<close>

text \<open>
  C6 (as amended). When a write of the commit fails, the writes performed before it stand
  (the folder is the one they left, with no file content changed by the failed write),
  the commit ends there with the failure reported, and the pending set is kept; the
  pending set is cleared when every write succeeded.
\<close>

theorem commit_ends_at_first_failed_write:
  assumes "directoryHandle st = Some h"
  shows "(pendingChanges st = done @ m # rest
            \<and> apply_changes done h = (None, h1)
            \<and> writeFileToDirectoryHandle h1 (mfPath m) (modifiedContent m) = (Some e, h2)
          \<longrightarrow> directoryHandle (handleApproveChanges st) = Some h2
              \<and> (\<forall>q. file_at (Dir h2) q = file_at (Dir h1) q)
              \<and> pendingChanges (handleApproveChanges st) = pendingChanges st
              \<and> notification (handleApproveChanges st) = Some (ApplyFailed e))
       \<and> (pendingChanges st \<noteq> [] \<and> apply_changes (pendingChanges st) h = (None, h')
          \<longrightarrow> directoryHandle (handleApproveChanges st) = Some h'
              \<and> pendingChanges (handleApproveChanges st) = [])"
proof (intro conjI impI)
  assume a: "pendingChanges st = done @ m # rest
            \<and> apply_changes done h = (None, h1)
            \<and> writeFileToDirectoryHandle h1 (mfPath m) (modifiedContent m) = (Some e, h2)"
  then have "apply_changes (pendingChanges st) h = apply_changes (m # rest) h1"
    by (simp add: apply_changes_append)
  with a have r: "apply_changes (pendingChanges st) h = (Some e, h2)" by simp
  from a have ne: "pendingChanges st \<noteq> []" by simp
  from r ne assms show "directoryHandle (handleApproveChanges st) = Some h2"
    and "pendingChanges (handleApproveChanges st) = pendingChanges st"
    and "notification (handleApproveChanges st) = Some (ApplyFailed e)"
    by (simp_all add: handleApproveChanges_def)
  from a show "\<forall>q. file_at (Dir h2) q = file_at (Dir h1) q"
    by (auto simp: writeFileToDirectoryHandle_def intro: file_at_failed_write)
next
  assume "pendingChanges st \<noteq> [] \<and> apply_changes (pendingChanges st) h = (None, h')"
  with assms show "directoryHandle (handleApproveChanges st) = Some h'"
    and "pendingChanges (handleApproveChanges st) = []"
    by (simp_all add: handleApproveChanges_def)
qed

text \<open>A commit whose second write fails on a file standing where a directory is needed,
  and a commit that succeeds.\<close>

theorem commit_ends_at_first_failed_write_witness:
  "directoryHandle (handleApproveChanges
      \<lparr>directoryHandle = Some [(''a'', File ''x'')], localRoute = ''proj'', isNovo = True,
       pendingChanges = [\<lparr>mfPath = ''b'', modifiedContent = ''y''\<rparr>,
                         \<lparr>mfPath = ''a/n'', modifiedContent = ''z''\<rparr>,
                         \<lparr>mfPath = ''c'', modifiedContent = ''w''\<rparr>],
       originalFiles = [], activeDiffTab = ''b'', showDiffPanel = False,
       showCodeAgentDiff = True, messages = [], implemented = False, notification = None\<rparr>)
     = Some [(''a'', File ''x''), (''b'', File ''y'')]
   \<and> pendingChanges (handleApproveChanges
      \<lparr>directoryHandle = Some [(''a'', File ''x'')], localRoute = ''proj'', isNovo = True,
       pendingChanges = [\<lparr>mfPath = ''b'', modifiedContent = ''y''\<rparr>,
                         \<lparr>mfPath = ''a/n'', modifiedContent = ''z''\<rparr>,
                         \<lparr>mfPath = ''c'', modifiedContent = ''w''\<rparr>],
       originalFiles = [], activeDiffTab = ''b'', showDiffPanel = False,
       showCodeAgentDiff = True, messages = [], implemented = False, notification = None\<rparr>)
     = [\<lparr>mfPath = ''b'', modifiedContent = ''y''\<rparr>,
        \<lparr>mfPath = ''a/n'', modifiedContent = ''z''\<rparr>,
        \<lparr>mfPath = ''c'', modifiedContent = ''w''\<rparr>]
   \<and> pendingChanges (handleApproveChanges
      \<lparr>directoryHandle = Some [(''a'', File ''x'')], localRoute = ''proj'', isNovo = True,
       pendingChanges = [\<lparr>mfPath = ''b'', modifiedContent = ''y''\<rparr>],
       originalFiles = [], activeDiffTab = ''b'', showDiffPanel = False,
       showCodeAgentDiff = True, messages = [], implemented = False, notification = None\<rparr>)
     = []"
  using commit_ends_at_first_failed_write
      [of "\<lparr>directoryHandle = Some [(''a'', File ''x'')], localRoute = ''proj'', isNovo = True,
       pendingChanges = [\<lparr>mfPath = ''b'', modifiedContent = ''y''\<rparr>,
                         \<lparr>mfPath = ''a/n'', modifiedContent = ''z''\<rparr>,
                         \<lparr>mfPath = ''c'', modifiedContent = ''w''\<rparr>],
       originalFiles = [], activeDiffTab = ''b'', showDiffPanel = False,
       showCodeAgentDiff = True, messages = [], implemented = False, notification = None\<rparr>"
       "[(''a'', File ''x'')]"
       "[\<lparr>mfPath = ''b'', modifiedContent = ''y''\<rparr>]"
       "\<lparr>mfPath = ''a/n'', modifiedContent = ''z''\<rparr>"
       "[\<lparr>mfPath = ''c'', modifiedContent = ''w''\<rparr>]"
       "[(''a'', File ''x''), (''b'', File ''y'')]"
       TypeMismatchError
       "[(''a'', File ''x''), (''b'', File ''y'')]"]
    commit_ends_at_first_failed_write
      [of "\<lparr>directoryHandle = Some [(''a'', File ''x'')], localRoute = ''proj'', isNovo = True,
       pendingChanges = [\<lparr>mfPath = ''b'', modifiedContent = ''y''\<rparr>],
       originalFiles = [], activeDiffTab = ''b'', showDiffPanel = False,
       showCodeAgentDiff = True, messages = [], implemented = False, notification = None\<rparr>"
       "[(''a'', File ''x'')]" _ _ _ _ _ _ "[(''a'', File ''x''), (''b'', File ''y'')]"]
  by (simp add: writeFileToDirectoryHandle_def valid_name_def)

text \<open>
  C6 as stated fails: the first write fails, the write of \<open>c\<close>, which would succeed, is
  never attempted, and the pending set is not cleared.
\<close>

theorem commit_continues_and_clears_counterexample:
  "directoryHandle (handleApproveChanges
      \<lparr>directoryHandle = Some [(''a'', File ''x'')], localRoute = ''proj'', isNovo = True,
       pendingChanges = [\<lparr>mfPath = ''a/n'', modifiedContent = ''z''\<rparr>,
                         \<lparr>mfPath = ''c'', modifiedContent = ''w''\<rparr>],
       originalFiles = [], activeDiffTab = ''c'', showDiffPanel = False,
       showCodeAgentDiff = True, messages = [], implemented = False, notification = None\<rparr>)
     = Some [(''a'', File ''x'')]
   \<and> pendingChanges (handleApproveChanges
      \<lparr>directoryHandle = Some [(''a'', File ''x'')], localRoute = ''proj'', isNovo = True,
       pendingChanges = [\<lparr>mfPath = ''a/n'', modifiedContent = ''z''\<rparr>,
                         \<lparr>mfPath = ''c'', modifiedContent = ''w''\<rparr>],
       originalFiles = [], activeDiffTab = ''c'', showDiffPanel = False,
       showCodeAgentDiff = True, messages = [], implemented = False, notification = None\<rparr>)
     = [\<lparr>mfPath = ''a/n'', modifiedContent = ''z''\<rparr>,
        \<lparr>mfPath = ''c'', modifiedContent = ''w''\<rparr>]
   \<and> writeFileToDirectoryHandle [(''a'', File ''x'')] ''c'' ''w''
     = (None, [(''a'', File ''x''), (''c'', File ''w'')])"
  by (simp add: handleApproveChanges_def writeFileToDirectoryHandle_def valid_name_def)
subsection \<open>C7: reading back the prepared workspace\<close>

text \<open>
  C7 (as amended). Let the directory of \<open>server.js\<close> be a directory of the disk. For every
  list of file records whose paths are distinct, consist of proper names only (no empty,
  \<open>.\<close> or \<open>..\<close> piece between the slashes) and of which none is a prefix of another piece
  by piece, workspace preparation completes without an error, and reading back
  \<open>path.join(userFilesDir, filePath)\<close> right after it yields, for every submitted file, the
  submitted content. The errors of the model are those of the tree (a file where a
  directory is needed and the reverse); disk space, permissions and name lengths are not
  modelled.
\<close>

theorem prepare_then_read_back:
  assumes "\<forall>s \<in> set ds. valid_name s" and "dir_at fs ds"
    and "\<forall>f \<in> set fileList. proper_path (filePath f)"
    and "distinct (map filePath fileList)"
    and "\<forall>f \<in> set fileList. \<forall>g \<in> set fileList.
           prefix (js_split (CHR ''/'') (filePath f)) (js_split (CHR ''/'') (filePath g))
           \<longrightarrow> filePath f = filePath g"
  shows "fst (prepare (abs_path ds) fileList fs) = None
         \<and> (\<forall>f \<in> set fileList.
               fs_readFile (path_join (path_join (abs_path ds) ''USER_FILES'') (filePath f))
                 (snd (snd (prepare (abs_path ds) fileList fs))) = Inr (content f))"
proof
  show ok: "fst (prepare (abs_path ds) fileList fs) = None"
    using assms by (rule prepare_completes)
  obtain snapshot fs' where p: "prepare (abs_path ds) fileList fs = (None, snapshot, fs')"
    using ok by (cases "prepare (abs_path ds) fileList fs") auto
  show "\<forall>f \<in> set fileList.
          fs_readFile (path_join (path_join (abs_path ds) ''USER_FILES'') (filePath f))
            (snd (snd (prepare (abs_path ds) fileList fs))) = Inr (content f)"
    using prepare_readback [OF assms(1,3,4) p] by (simp add: p)
qed

text \<open>The theorem at a list with one file in the root and one in a subdirectory.\<close>

theorem prepare_then_read_back_witness:
  "fst (prepare (abs_path [''srv'', ''app''])
         [\<lparr>filePath = ''a.txt'', content = ''hello''\<rparr>, \<lparr>filePath = ''d/b.txt'', content = ''y''\<rparr>]
         (Dir [(''srv'', Dir [(''app'', Dir [(''server.js'', File ''code'')])])])) = None
   \<and> fs_readFile (path_join (path_join (abs_path [''srv'', ''app'']) ''USER_FILES'') ''a.txt'')
       (snd (snd (prepare (abs_path [''srv'', ''app''])
         [\<lparr>filePath = ''a.txt'', content = ''hello''\<rparr>, \<lparr>filePath = ''d/b.txt'', content = ''y''\<rparr>]
         (Dir [(''srv'', Dir [(''app'', Dir [(''server.js'', File ''code'')])])])))) = Inr ''hello''
   \<and> fs_readFile (path_join (path_join (abs_path [''srv'', ''app'']) ''USER_FILES'') ''d/b.txt'')
       (snd (snd (prepare (abs_path [''srv'', ''app''])
         [\<lparr>filePath = ''a.txt'', content = ''hello''\<rparr>, \<lparr>filePath = ''d/b.txt'', content = ''y''\<rparr>]
         (Dir [(''srv'', Dir [(''app'', Dir [(''server.js'', File ''code'')])])])))) = Inr ''y''"
  using prepare_then_read_back [of "[''srv'', ''app'']"
      "Dir [(''srv'', Dir [(''app'', Dir [(''server.js'', File ''code'')])])]"
      "[\<lparr>filePath = ''a.txt'', content = ''hello''\<rparr>, \<lparr>filePath = ''d/b.txt'', content = ''y''\<rparr>]"]
  by (simp add: valid_name_def dir_at_def proper_path_def)

text \<open>
  C7 as stated fails for paths that are unique and free of \<open>..\<close>: \<open>a.txt\<close> and \<open>./a.txt\<close> are
  written to the same file, so \<open>a.txt\<close> reads back with the content submitted for
  \<open>./a.txt\<close>; and with \<open>a\<close> and \<open>a/b\<close> the preparation stops at \<open>mkdir\<close> with \<open>EEXIST\<close>, as \<open>a\<close>
  is a file by then.
\<close>

theorem read_back_counterexample:
  "distinct [''a.txt'', ''./a.txt''] \<and> dotdot_free ''a.txt'' \<and> dotdot_free ''./a.txt''
   \<and> fst (prepare (abs_path [''srv'', ''app''])
         [\<lparr>filePath = ''a.txt'', content = ''x''\<rparr>, \<lparr>filePath = ''./a.txt'', content = ''y''\<rparr>]
         (Dir [(''srv'', Dir [(''app'', Dir [(''server.js'', File ''code'')])])])) = None
   \<and> fs_readFile (path_join (path_join (abs_path [''srv'', ''app'']) ''USER_FILES'') ''a.txt'')
       (snd (snd (prepare (abs_path [''srv'', ''app''])
         [\<lparr>filePath = ''a.txt'', content = ''x''\<rparr>, \<lparr>filePath = ''./a.txt'', content = ''y''\<rparr>]
         (Dir [(''srv'', Dir [(''app'', Dir [(''server.js'', File ''code'')])])])))) = Inr ''y''
   \<and> distinct [''a'', ''a/b''] \<and> dotdot_free ''a'' \<and> dotdot_free ''a/b''
   \<and> fst (prepare (abs_path [''srv'', ''app''])
         [\<lparr>filePath = ''a'', content = ''x''\<rparr>, \<lparr>filePath = ''a/b'', content = ''y''\<rparr>]
         (Dir [(''srv'', Dir [(''app'', Dir [(''server.js'', File ''code'')])])])) = Some EEXIST"
  by (simp add: eval_defs abs_path_def dotdot_free_def)
subsection \<open>C8: committing the same change set twice\<close>

text \<open>
  C8. Applying a pending change set to the folder that a first application of the same
  set left gives the same outcome and the same folder, hence the same content for every
  file: a second commit changes nothing. This holds for every folder and every change
  set, also when a path occurs twice in the set and when the first commit ended at a
  failed write. Each write that succeeds leaves \<open>modifiedContent\<close> as the content of the
  file at its path.
\<close>

theorem commit_twice_as_once:
  "apply_changes changes (snd (apply_changes changes h)) = apply_changes changes h
   \<and> (\<forall>q. file_at (Dir (snd (apply_changes changes (snd (apply_changes changes h))))) q
          = file_at (Dir (snd (apply_changes changes h))) q)
   \<and> (writeFileToDirectoryHandle h p data = (None, h')
        \<longrightarrow> file_at (Dir h') (js_split (CHR ''/'') p) = Some data)"
proof (intro conjI allI impI)
  show "apply_changes changes (snd (apply_changes changes h)) = apply_changes changes h"
    by (rule apply_changes_twice)
  then show "file_at (Dir (snd (apply_changes changes (snd (apply_changes changes h))))) q
          = file_at (Dir (snd (apply_changes changes h))) q" for q
    by simp
  show "file_at (Dir h') (js_split (CHR ''/'') p) = Some data"
    if "writeFileToDirectoryHandle h p data = (None, h')"
    using that by (simp add: writeFileToDirectoryHandle_def file_at_written)
qed

text \<open>A change set that writes \<open>src/a.txt\<close> twice, applied once and again.\<close>

theorem commit_twice_as_once_witness:
  "apply_changes [\<lparr>mfPath = ''src/a.txt'', modifiedContent = ''one''\<rparr>,
                  \<lparr>mfPath = ''b.txt'', modifiedContent = ''two''\<rparr>,
                  \<lparr>mfPath = ''src/a.txt'', modifiedContent = ''three''\<rparr>]
     [(''b.txt'', File ''old'')]
     = (None, [(''b.txt'', File ''two''), (''src'', Dir [(''a.txt'', File ''three'')])])
   \<and> apply_changes [\<lparr>mfPath = ''src/a.txt'', modifiedContent = ''one''\<rparr>,
                  \<lparr>mfPath = ''b.txt'', modifiedContent = ''two''\<rparr>,
                  \<lparr>mfPath = ''src/a.txt'', modifiedContent = ''three''\<rparr>]
     [(''b.txt'', File ''two''), (''src'', Dir [(''a.txt'', File ''three'')])]
     = (None, [(''b.txt'', File ''two''), (''src'', Dir [(''a.txt'', File ''three'')])])
   \<and> file_at (Dir [(''b.txt'', File ''old''), (''c.txt'', File ''new'')]) [''c.txt''] = Some ''new''"
  using commit_twice_as_once
     [of "[\<lparr>mfPath = ''src/a.txt'', modifiedContent = ''one''\<rparr>,
           \<lparr>mfPath = ''b.txt'', modifiedContent = ''two''\<rparr>,
           \<lparr>mfPath = ''src/a.txt'', modifiedContent = ''three''\<rparr>]"
         "[(''b.txt'', File ''old'')]" "''c.txt''" "''new''"
         "[(''b.txt'', File ''old''), (''c.txt'', File ''new'')]"]
  by (simp add: writeFileToDirectoryHandle_def valid_name_def)
subsection \<open>C9: deletions are never reported\<close>

text \<open>
  C9 (as amended). Every entry of the detector's result is the relative path, with each
  backslash replaced by a slash, and the content of a file that exists in the final
  workspace tree; a path that is the so normalized path of no file of the final tree
  appears nowhere in the result. When no name on the way to a file of the final tree holds
  a backslash, every entry names a file that exists in the final tree (its path, split at
  the slashes, leads to the file with the reported content), and a path that leads to no
  file of the final tree, such as a snapshot path whose file the agent deleted, appears
  nowhere in the result.
\<close>

theorem detector_reports_present_files_only:
  assumes "\<forall>s \<in> set ds. valid_name s"
    and "lookup fs (ds @ [''USER_FILES'']) = Some (Dir es)"
    and "wf_entries es"
  shows "\<exists>ms. detect_changes (path_join (abs_path ds) ''USER_FILES'') snapshot fs = Inr ms
           \<and> (\<forall>m \<in> set ms. \<exists>segs. (segs, modifiedContent m) \<in> set (files_of (Dir es))
                                  \<and> mfPath m = reported_path segs)
           \<and> (\<forall>p. p \<notin> reported_path ` fst ` set (files_of (Dir es))
                   \<longrightarrow> p \<notin> mfPath ` set ms)
           \<and> ((\<forall>(segs, c) \<in> set (files_of (Dir es)). \<forall>s \<in> set segs. CHR 0x5C \<notin> set s)
                \<longrightarrow> (\<forall>m \<in> set ms. lookup (Dir es) (js_split (CHR ''/'') (mfPath m))
                                      = Some (File (modifiedContent m)))
                    \<and> (\<forall>p. file_at (Dir es) (js_split (CHR ''/'') p) = None
                             \<longrightarrow> p \<notin> mfPath ` set ms))"
proof -
  let ?ms = "map (\<lambda>(segs, c). \<lparr>mfPath = reported_path segs, modifiedContent = c\<rparr>)
               (filter (\<lambda>(segs, c). snapshot (reported_path segs) \<noteq> Some c)
                  (files_of (Dir es)))"
  have r: "detect_changes (path_join (abs_path ds) ''USER_FILES'') snapshot fs = Inr ?ms"
    using assms by (rule detect_changes_files)
  have a: "\<forall>m \<in> set ?ms. \<exists>segs. (segs, modifiedContent m) \<in> set (files_of (Dir es))
                                  \<and> mfPath m = reported_path segs"
    by auto
  have b: "\<forall>p. p \<notin> reported_path ` fst ` set (files_of (Dir es)) \<longrightarrow> p \<notin> mfPath ` set ?ms"
    by force
  have c: "(\<forall>(segs, c) \<in> set (files_of (Dir es)). \<forall>s \<in> set segs. CHR 0x5C \<notin> set s)
             \<longrightarrow> (\<forall>m \<in> set ?ms. lookup (Dir es) (js_split (CHR ''/'') (mfPath m))
                                   = Some (File (modifiedContent m)))"
  proof (intro impI ballI)
    fix m
    assume nb: "\<forall>(segs, c) \<in> set (files_of (Dir es)). \<forall>s \<in> set segs. CHR 0x5C \<notin> set s"
      and "m \<in> set ?ms"
    then obtain segs c where sc: "(segs, c) \<in> set (files_of (Dir es))"
      and m: "m = \<lparr>mfPath = reported_path segs, modifiedContent = c\<rparr>" by auto
    from files_of_wf(2) [OF assms(3)] sc
    have l: "lookup (Dir es) segs = Some (File c)" and v: "\<forall>s \<in> set segs. valid_name s"
      and ne: "segs \<noteq> []" by auto
    from nb sc have "\<forall>s \<in> set segs. CHR 0x5C \<notin> set s" by auto
    then have "CHR 0x5C \<notin> set (js_join ''/'' segs)"
      by (induction "''/'' :: string" segs rule: js_join.induct) auto
    then have "reported_path segs = js_join ''/'' segs"
      by (auto simp: reported_path_def replace_backslashes_def intro!: map_idI)
    moreover have "js_split (CHR ''/'') (js_join ''/'' segs) = segs"
      using ne v by (intro js_split_join) (auto simp: valid_name_def)
    ultimately show "lookup (Dir es) (js_split (CHR ''/'') (mfPath m))
                       = Some (File (modifiedContent m))"
      using l m by simp
  qed
  have d: "(\<forall>(segs, c) \<in> set (files_of (Dir es)). \<forall>s \<in> set segs. CHR 0x5C \<notin> set s)
             \<longrightarrow> (\<forall>p. file_at (Dir es) (js_split (CHR ''/'') p) = None
                         \<longrightarrow> p \<notin> mfPath ` set ?ms)"
  proof (intro impI allI)
    fix p
    assume nb: "\<forall>(segs, c) \<in> set (files_of (Dir es)). \<forall>s \<in> set segs. CHR 0x5C \<notin> set s"
      and none: "file_at (Dir es) (js_split (CHR ''/'') p) = None"
    show "p \<notin> mfPath ` set ?ms"
    proof
      assume "p \<in> mfPath ` set ?ms"
      then obtain m where m: "m \<in> set ?ms" and p: "p = mfPath m" by auto
      from c nb m have "lookup (Dir es) (js_split (CHR ''/'') (mfPath m))
                          = Some (File (modifiedContent m))" by blast
      with none p show False by (simp add: file_at_def)
    qed
  qed
  from r a b c d show ?thesis by blast
qed

text \<open>The theorem at a workspace whose file \<open>gone.txt\<close> was deleted.\<close>

theorem detector_reports_present_files_only_witness:
  "\<exists>ms. detect_changes (path_join (abs_path [''srv'', ''app'']) ''USER_FILES'')
           [''a.txt'' \<mapsto> ''hello'', ''gone.txt'' \<mapsto> ''y'']
           (Dir [(''srv'', Dir [(''app'', Dir [(''USER_FILES'',
               Dir [(''a.txt'', File ''hello world'')])])])]) = Inr ms
     \<and> ms = [\<lparr>mfPath = ''a.txt'', modifiedContent = ''hello world''\<rparr>]
     \<and> ''gone.txt'' \<notin> mfPath ` set ms
     \<and> list_all (\<lambda>m. lookup (Dir [(''a.txt'', File ''hello world'')])
                        (js_split (CHR ''/'') (mfPath m)) = Some (File (modifiedContent m))) ms"
proof -
  from detector_reports_present_files_only [of "[''srv'', ''app'']"
      "Dir [(''srv'', Dir [(''app'', Dir [(''USER_FILES'',
               Dir [(''a.txt'', File ''hello world'')])])])]"
      "[(''a.txt'', File ''hello world'')]"
      "[''a.txt'' \<mapsto> ''hello'', ''gone.txt'' \<mapsto> ''y'']"]
  obtain ms where
    r: "detect_changes (path_join (abs_path [''srv'', ''app'']) ''USER_FILES'')
           [''a.txt'' \<mapsto> ''hello'', ''gone.txt'' \<mapsto> ''y'']
           (Dir [(''srv'', Dir [(''app'', Dir [(''USER_FILES'',
               Dir [(''a.txt'', File ''hello world'')])])])]) = Inr ms"
    and g: "''gone.txt'' \<notin> mfPath ` set ms"
    and g': "\<forall>p. file_at (Dir [(''a.txt'', File ''hello world'')]) (js_split (CHR ''/'') p) = None
                 \<longrightarrow> p \<notin> mfPath ` set ms"
    and l: "\<forall>m \<in> set ms. lookup (Dir [(''a.txt'', File ''hello world'')])
                        (js_split (CHR ''/'') (mfPath m)) = Some (File (modifiedContent m))"
    by (auto simp: valid_name_def reported_path_def replace_backslashes_def)
  have "detect_changes (path_join (abs_path [''srv'', ''app'']) ''USER_FILES'')
           [''a.txt'' \<mapsto> ''hello'', ''gone.txt'' \<mapsto> ''y'']
           (Dir [(''srv'', Dir [(''app'', Dir [(''USER_FILES'',
               Dir [(''a.txt'', File ''hello world'')])])])])
        = Inr [\<lparr>mfPath = ''a.txt'', modifiedContent = ''hello world''\<rparr>]"
    using detect_changes_files [of "[''srv'', ''app'']"
      "Dir [(''srv'', Dir [(''app'', Dir [(''USER_FILES'',
               Dir [(''a.txt'', File ''hello world'')])])])]"
      "[(''a.txt'', File ''hello world'')]"
      "[''a.txt'' \<mapsto> ''hello'', ''gone.txt'' \<mapsto> ''y'']"]
    by (simp add: valid_name_def reported_path_def replace_backslashes_def)
  with r have "ms = [\<lparr>mfPath = ''a.txt'', modifiedContent = ''hello world''\<rparr>]" by simp
  with r g l show ?thesis by (simp add: list_all_iff)
qed


text \<open>
  C9 as stated fails. The final workspace holds one file, named \<open>a\<close>, backslash, \<open>b.txt\<close>;
  the snapshot path \<open>a/b.txt\<close> names a file the agent deleted. The result reports
  \<open>a/b.txt\<close>, which names no file of the final tree.
\<close>

theorem backslash_name_reported_counterexample:
  "detect_changes (path_join (abs_path [''srv'', ''app'']) ''USER_FILES'')
      [''a/b.txt'' \<mapsto> ''old'']
      (Dir [(''srv'', Dir [(''app'', Dir [(''USER_FILES'',
          Dir [(''a'' @ [CHR 0x5C] @ ''b.txt'', File ''new'')])])])])
     = Inr [\<lparr>mfPath = ''a/b.txt'', modifiedContent = ''new''\<rparr>]
   \<and> wf_entries [(''a'' @ [CHR 0x5C] @ ''b.txt'', File ''new'')]
   \<and> lookup (Dir [(''a'' @ [CHR 0x5C] @ ''b.txt'', File ''new'')])
         (js_split (CHR ''/'') ''a/b.txt'') = None"
  using detect_changes_files [of "[''srv'', ''app'']"
      "Dir [(''srv'', Dir [(''app'', Dir [(''USER_FILES'',
          Dir [(''a'' @ [CHR 0x5C] @ ''b.txt'', File ''new'')])])])]"
      "[(''a'' @ [CHR 0x5C] @ ''b.txt'', File ''new'')]"
      "[''a/b.txt'' \<mapsto> ''old'']"]
  by (simp add: valid_name_def reported_path_def replace_backslashes_def)
subsection \<open>C10: \<open>/api/cli-inject\<close> leaves \<open>GEMINI.md\<close> out\<close>

text \<open>
  C10. In the cli-inject variant the detector skips every workspace file whose reported
  path has the basename \<open>GEMINI.md\<close>: no entry of the result has that basename, and a file
  named \<open>GEMINI.md\<close> is left out whether its content differs from the snapshot or it has
  no snapshot entry at all. Every other file is treated as in \<open>/api/code-agent\<close>.
\<close>

theorem cli_inject_skips_GEMINI_md:
  assumes "\<forall>s \<in> set ds. valid_name s"
    and "lookup fs (ds @ [''USER_FILES'']) = Some (Dir es)"
    and "wf_entries es"
  shows "\<exists>ms. cli_inject_detect_changes (path_join (abs_path ds) ''USER_FILES'') snapshot fs
                = Inr ms
           \<and> ms = map (\<lambda>(segs, c). \<lparr>mfPath = reported_path segs, modifiedContent = c\<rparr>)
                    (filter (\<lambda>(segs, c). path_basename (reported_path segs) \<noteq> ''GEMINI.md''
                               \<and> snapshot (reported_path segs) \<noteq> Some c)
                       (files_of (Dir es)))
           \<and> (\<forall>m \<in> set ms. path_basename (mfPath m) \<noteq> ''GEMINI.md'')
           \<and> (\<forall>(segs, c) \<in> set (files_of (Dir es)).
                 last segs = ''GEMINI.md'' \<longrightarrow> reported_path segs \<notin> mfPath ` set ms)"
proof -
  let ?ms = "map (\<lambda>(segs, c). \<lparr>mfPath = reported_path segs, modifiedContent = c\<rparr>)
               (filter (\<lambda>(segs, c). path_basename (reported_path segs) \<noteq> ''GEMINI.md''
                          \<and> snapshot (reported_path segs) \<noteq> Some c)
                  (files_of (Dir es)))"
  have r: "cli_inject_detect_changes (path_join (abs_path ds) ''USER_FILES'') snapshot fs
             = Inr ?ms"
    using assms by (rule cli_inject_detect_changes_files)
  have a: "\<forall>m \<in> set ?ms. path_basename (mfPath m) \<noteq> ''GEMINI.md''" by auto
  have b: "\<forall>(segs, c) \<in> set (files_of (Dir es)).
             last segs = ''GEMINI.md'' \<longrightarrow> reported_path segs \<notin> mfPath ` set ?ms"
  proof (intro ballI, clarify)
    fix segs c m
    assume sc: "(segs, c) \<in> set (files_of (Dir es))" and g: "last segs = ''GEMINI.md''"
      and m: "m \<in> set ?ms" and p: "reported_path segs = mfPath m"
    from files_of_wf(2) [OF assms(3)] sc
    have v: "\<forall>s \<in> set segs. valid_name s" and ne: "segs \<noteq> []" by auto
    have "path_basename (reported_path segs) = last segs"
      using ne v by (rule path_basename_last) (simp add: g)
    with g p a m show False by auto
  qed
  from r a b show ?thesis by blast
qed

text \<open>The theorem at a workspace with a changed \<open>GEMINI.md\<close> and a new one in a
  subdirectory.\<close>

theorem cli_inject_skips_GEMINI_md_witness:
  "cli_inject_detect_changes (path_join (abs_path [''srv'', ''app'']) ''USER_FILES'')
     [''a.txt'' \<mapsto> ''hello'', ''GEMINI.md'' \<mapsto> ''old'']
     (Dir [(''srv'', Dir [(''app'', Dir [(''USER_FILES'',
        Dir [(''a.txt'', File ''hello world''), (''GEMINI.md'', File ''changed''),
             (''docs'', Dir [(''GEMINI.md'', File ''added'')])])])])])
   = Inr [\<lparr>mfPath = ''a.txt'', modifiedContent = ''hello world''\<rparr>]"
  using cli_inject_skips_GEMINI_md [of "[''srv'', ''app'']"
     "Dir [(''srv'', Dir [(''app'', Dir [(''USER_FILES'',
        Dir [(''a.txt'', File ''hello world''), (''GEMINI.md'', File ''changed''),
             (''docs'', Dir [(''GEMINI.md'', File ''added'')])])])])]"
     "[(''a.txt'', File ''hello world''), (''GEMINI.md'', File ''changed''),
             (''docs'', Dir [(''GEMINI.md'', File ''added'')])]"
     "[''a.txt'' \<mapsto> ''hello'', ''GEMINI.md'' \<mapsto> ''old'']"]
  by (simp add: valid_name_def reported_path_def replace_backslashes_def path_basename_def)

end
